theory Spec2Isabelle
  imports
    Main
    "HOL-Library.Char_ord"
    "HOL-Library.List_Lexorder"
begin

unbundle bit_operations_syntax

section \<open>The encoder (tsgen.js, \<open>toBase64Url48\<close>)\<close>

text \<open>
  The argument of \<open>toBase64Url48\<close> is a JavaScript Number or BigInt. A BigInt is an
  unbounded integer. A Number is modelled by what \<open>BigInt(v)\<close> makes of it: a Number with
  an integral value converts to that integer, every other Number (a fraction, NaN, an
  infinity) makes \<open>BigInt(v)\<close> raise a RangeError. \<open>Date.now()\<close> always yields an
  integral Number.
\<close>

datatype js_num = BigIntV int | NumberV int | NonIntegralV

datatype js_error = RangeError | Error string

text \<open>\<open>typeof v === 'bigint' ? v : BigInt(v)\<close>\<close>

fun toBigInt :: "js_num \<Rightarrow> js_error + int" where
  "toBigInt (BigIntV n) = Inr n"
| "toBigInt (NumberV n) = Inr n"
| "toBigInt NonIntegralV = Inl RangeError"

definition ASCII_BASE64_ALPHA :: string where
  "ASCII_BASE64_ALPHA =
     ''-0123456789ABCDEFGHIJKLMNOPQRSTUVWXYZ_abcdefghijklmnopqrstuvwxyz''"

text \<open>
  The module-level check \<open>if (ASCII_BASE64_ALPHA.length !== 64) throw new Error(...)\<close>,
  run once when the module is loaded.
\<close>

definition module_load :: "js_error + unit" where
  "module_load =
     (if length ASCII_BASE64_ALPHA \<noteq> 64 then Inl (Error ''Alphabet length must be 64'')
      else Inr ())"

text \<open>
  \<open>new Array(8)\<close> is an array of eight empty slots; \<open>join('')\<close> concatenates the
  slots that were filled.
\<close>

fun join :: "char option list \<Rightarrow> string" where
  "join [] = []"
| "join (None # xs) = join xs"
| "join (Some c # xs) = c # join xs"

text \<open>
  The loop \<open>for (let i = 0, shift = 42n; i < 8; i++, shift -= 6n)\<close> with the body
  \<open>out[i] = ASCII_BASE64_ALPHA[Number((n >> shift) & 0x3fn)]\<close>.
\<close>

function encode_loop :: "nat \<Rightarrow> int \<Rightarrow> int \<Rightarrow> char option list \<Rightarrow> char option list" where
  "encode_loop i shift n out =
     (if i < 8 then
        let idx = nat (drop_bit (nat shift) n AND 0x3f)
        in encode_loop (i + 1) (shift - 6) n (out[i := Some (ASCII_BASE64_ALPHA ! idx)])
      else out)"
  by pat_completeness auto
termination
  by (relation "measure (\<lambda>(i, shift, n, out). 8 - i)") auto

declare encode_loop.simps [simp del]

text \<open>The body of \<open>toBase64Url48\<close> once the argument is a BigInt.\<close>

definition encode48 :: "int \<Rightarrow> string" where
  "encode48 v =
     (let n = v AND (push_bit 48 1 - 1)
      in join (encode_loop 0 42 n (replicate 8 None)))"

definition toBase64Url48 :: "js_num \<Rightarrow> js_error + string" where
  "toBase64Url48 v = (case toBigInt v of Inl e \<Rightarrow> Inl e | Inr n \<Rightarrow> Inr (encode48 n))"

subsection \<open>The copy of the encoder in tsgen-worker.js\<close>

definition worker_ASCII_BASE64_ALPHA :: string where
  "worker_ASCII_BASE64_ALPHA =
     ''-0123456789ABCDEFGHIJKLMNOPQRSTUVWXYZ_abcdefghijklmnopqrstuvwxyz''"

function worker_encode_loop ::
  "nat \<Rightarrow> int \<Rightarrow> int \<Rightarrow> char option list \<Rightarrow> char option list" where
  "worker_encode_loop i shift n out =
     (if i < 8 then
        worker_encode_loop (i + 1) (shift - 6) n
          (out[i := Some (worker_ASCII_BASE64_ALPHA ! nat (drop_bit (nat shift) n AND 0x3f))])
      else out)"
  by pat_completeness auto
termination
  by (relation "measure (\<lambda>(i, shift, n, out). 8 - i)") auto

declare worker_encode_loop.simps [simp del]

definition worker_encode48 :: "int \<Rightarrow> string" where
  "worker_encode48 v =
     (let n = v AND (push_bit 48 1 - 1)
      in join (worker_encode_loop 0 42 n (replicate 8 None)))"

definition worker_toBase64Url48 :: "js_num \<Rightarrow> js_error + string" where
  "worker_toBase64Url48 v =
     (case toBigInt v of Inl e \<Rightarrow> Inl e | Inr n \<Rightarrow> Inr (worker_encode48 n))"

subsection \<open>Decoding by alphabet ordinal\<close>

text \<open>
  The specification's \<open>decode_ordinal\<close> is not part of the program: it reads an encoded
  string back as a base-64 numeral, a character standing for its position in the
  alphabet. It is defined here only to state the round trip.
\<close>

definition ordinal :: "char \<Rightarrow> nat" where
  "ordinal c = length (takeWhile (\<lambda>x. x \<noteq> c) ASCII_BASE64_ALPHA)"

definition decode_ordinal :: "string \<Rightarrow> int" where
  "decode_ordinal s = foldl (\<lambda>acc c. acc * 64 + int (ordinal c)) 0 s"


text \<open>The base-64 digits of a number, most significant first (used in the proofs).\<close>

fun digits64 :: "nat \<Rightarrow> int \<Rightarrow> int list" where
  "digits64 0 n = []"
| "digits64 (Suc k) n = digits64 k (n div 64) @ [n mod 64]"

definition alpha_at :: "int \<Rightarrow> char" where
  "alpha_at d = ASCII_BASE64_ALPHA ! nat d"

definition valid_ts :: "string \<Rightarrow> bool" where
  "valid_ts str \<longleftrightarrow> length str = 8 \<and> set str \<subseteq> set ASCII_BASE64_ALPHA"

section \<open>The generator (tsgen.js, \<open>createTSGen\<close>)\<close>

subsection \<open>Configuration\<close>

record config =
  thresholdCalls :: int
  thresholdWindowUs :: int
  perfCooldownMs :: int
  "prefer" :: string

text \<open>The argument \<open>opts\<close>: each key may be absent.\<close>

record options =
  opt_thresholdCalls :: "int option"
  opt_thresholdWindowUs :: "int option"
  opt_perfCooldownMs :: "int option"
  opt_prefer :: "string option"

definition defaultOptions :: config where
  "defaultOptions =
     \<lparr>thresholdCalls = 5, thresholdWindowUs = 5, perfCooldownMs = 1000, prefer = ''auto''\<rparr>"

text \<open>\<open>Object.assign({}, defaultOptions, opts)\<close>\<close>

definition assign :: "config \<Rightarrow> options \<Rightarrow> config" where
  "assign d opts =
     \<lparr>thresholdCalls = (case opt_thresholdCalls opts of None \<Rightarrow> thresholdCalls d | Some v \<Rightarrow> v),
      thresholdWindowUs =
        (case opt_thresholdWindowUs opts of None \<Rightarrow> thresholdWindowUs d | Some v \<Rightarrow> v),
      perfCooldownMs = (case opt_perfCooldownMs opts of None \<Rightarrow> perfCooldownMs d | Some v \<Rightarrow> v),
      prefer = (case opt_prefer opts of None \<Rightarrow> prefer d | Some v \<Rightarrow> v)\<rparr>"

subsection \<open>The worker thread (tsgen-worker.js)\<close>

text \<open>
  A value sent with \<open>postMessage\<close>: the worker script sends encoded strings and, when its
  loop fails, the object \<open>{ __error: ... }\<close>.
\<close>

datatype js_value = JString string | JObject

text \<open>
  A worker thread: the script's variable \<open>lastMs\<close> (\<open>None\<close> until the script has
  run its first statements), the messages posted and not yet delivered to the main
  thread, and whether the thread has stopped executing (terminated or exited).
\<close>

record thread =
  w_lastMs :: "int option"
  outbox :: "js_value list"
  stopped :: bool

definition new_thread :: thread where
  "new_thread = \<lparr>w_lastMs = None, outbox = [], stopped = False\<rparr>"

definition postMessage :: "js_value \<Rightarrow> thread \<Rightarrow> thread" where
  "postMessage v th = th\<lparr>outbox := outbox th @ [v]\<rparr>"

text \<open>
  The script's start, \<open>let lastMs = Date.now(); parentPort.postMessage(toBase64Url48(lastMs))\<close>;
  an exception there is uncaught and ends the thread.
\<close>

definition worker_boot :: "int \<Rightarrow> thread \<Rightarrow> thread" where
  "worker_boot now th =
     (case worker_toBase64Url48 (NumberV now) of
        Inl e \<Rightarrow> th\<lparr>w_lastMs := Some now, stopped := True\<rparr>
      | Inr str \<Rightarrow> postMessage (JString str) (th\<lparr>w_lastMs := Some now\<rparr>))"

text \<open>
  One iteration of the script's \<open>loop\<close>; when the clock has not changed the iteration
  only yields. The handler of \<open>loop().catch\<close> posts the error object and calls
  \<open>process.exit(1)\<close>.
\<close>

definition worker_iteration :: "int \<Rightarrow> int \<Rightarrow> thread \<Rightarrow> thread" where
  "worker_iteration now prev th =
     (if now \<noteq> prev then
        (case worker_toBase64Url48 (NumberV now) of
           Inl e \<Rightarrow> (postMessage JObject (th\<lparr>w_lastMs := Some now\<rparr>))\<lparr>stopped := True\<rparr>
         | Inr str \<Rightarrow> postMessage (JString str) (th\<lparr>w_lastMs := Some now\<rparr>))
      else th)"

definition worker_step :: "int \<Rightarrow> thread \<Rightarrow> thread" where
  "worker_step now th =
     (if stopped th then th
      else case w_lastMs th of
        None \<Rightarrow> worker_boot now th
      | Some prev \<Rightarrow> worker_iteration now prev th)"

subsection \<open>State\<close>

text \<open>
  The variables closed over by the functions of one generator, the module-level
  \<open>WorkerCtor\<close> (here: whether it is non-null), and the two things the JavaScript runtime
  holds for the generator: the suspended bodies of \<open>startInternalLoop\<close> (each with its
  \<open>localLastMs\<close>) and the worker threads created so far. The variable \<open>worker\<close> refers
  to a thread by its position. \<open>internalController\<close> is \<open>null\<close> or an object with the
  one field \<open>stopRequested\<close>; the loop reads the variable each time, so only the object
  the variable refers to at the moment matters.
\<close>

record tsgen =
  workerCtor :: bool
  cfg :: config
  cached :: string
  lastMs :: int
  callsInWindow :: int
  windowStartNano :: int
  internalRunning :: bool
  internalController :: "bool option"
  lastHighActivityAt :: int
  workerRunning :: bool
  worker :: "nat option"
  loops :: "int list"
  threads :: "thread list"

text \<open>
  Clock readings are arguments: \<open>Date.now()\<close> (milliseconds, an integral Number) and
  \<open>process.hrtime.bigint()\<close> (nanoseconds). One synchronous call or callback is taken
  to run at one instant, so all its readings of \<open>Date.now()\<close> are the same value.
\<close>

definition init_state :: "bool \<Rightarrow> config \<Rightarrow> string \<Rightarrow> int \<Rightarrow> int \<Rightarrow> tsgen" where
  "init_state wc c str nowMs nowNano =
     \<lparr>workerCtor = wc, cfg = c, cached = str, lastMs = nowMs, callsInWindow = 0,
      windowStartNano = nowNano, internalRunning = False, internalController = None,
      lastHighActivityAt = 0, workerRunning = False, worker = None, loops = [],
      threads = []\<rparr>"

text \<open>
  \<open>createTSGen(opts)\<close> in a module whose \<open>WorkerCtor\<close> is non-null exactly when \<open>wc\<close>
  holds: the configuration and the initial values of the variables.
\<close>

definition createTSGen :: "bool \<Rightarrow> options \<Rightarrow> int \<Rightarrow> int \<Rightarrow> js_error + tsgen" where
  "createTSGen wc opts nowMs nowNano =
     (let c = assign defaultOptions opts
      in case toBase64Url48 (NumberV nowMs) of
           Inl e \<Rightarrow> Inl e
         | Inr str \<Rightarrow> Inr (init_state wc c str nowMs nowNano))"

text \<open>Loading the module and then calling \<open>createTSGen(opts)\<close>.\<close>

definition construct :: "bool \<Rightarrow> options \<Rightarrow> int \<Rightarrow> int \<Rightarrow> js_error + tsgen" where
  "construct wc opts nowMs nowNano =
     (case module_load of Inl e \<Rightarrow> Inl e | Inr u \<Rightarrow> createTSGen wc opts nowMs nowNano)"

subsection \<open>Call-rate telemetry\<close>

text \<open>
  Division of BigInts truncates towards zero. \<open>Number(...)\<close> of the quotient and the
  increment of the counter are exact below \<open>2^53\<close>, which the model takes for granted.
\<close>

definition bigint_div :: "int \<Rightarrow> int \<Rightarrow> int" where
  "bigint_div a b = sgn a * sgn b * (\<bar>a\<bar> div \<bar>b\<bar>)"

definition markCall :: "int \<Rightarrow> tsgen \<Rightarrow> bool \<times> tsgen" where
  "markCall nowN s =
     (let s1 = s\<lparr>callsInWindow := callsInWindow s + 1\<rparr>;
          elapsedUs = bigint_div (nowN - windowStartNano s1) 1000
      in if elapsedUs \<ge> thresholdWindowUs (cfg s1) then
           let calls = callsInWindow s1
           in (calls \<ge> thresholdCalls (cfg s1), s1\<lparr>callsInWindow := 0, windowStartNano := nowN\<rparr>)
         else (False, s1))"

text \<open>
  The specification's \<open>record_call\<close>, written from its words over the same state: the
  counter is incremented; the elapsed time since the window start is compared with the
  window (given in microseconds, the clock counting nanoseconds); if the window has
  elapsed the result is \<open>counter \<ge> threshold_calls\<close> and the counter and window start are
  reset; otherwise the result is false and nothing is reset.
\<close>

definition record_call_spec :: "int \<Rightarrow> tsgen \<Rightarrow> bool \<times> tsgen" where
  "record_call_spec now s =
     (let counter = callsInWindow s + 1
      in if now - windowStartNano s \<ge> 1000 * thresholdWindowUs (cfg s) then
           (counter \<ge> thresholdCalls (cfg s), s\<lparr>callsInWindow := 0, windowStartNano := now\<rparr>)
         else (False, s\<lparr>callsInWindow := counter\<rparr>))"

text \<open>A run of calls of \<open>markCall\<close>, one per clock reading: the results and the final state.\<close>

fun markCalls :: "int list \<Rightarrow> tsgen \<Rightarrow> bool list \<times> tsgen" where
  "markCalls [] s = ([], s)"
| "markCalls (nowN # ns) s =
     (let (r, s1) = markCall nowN s; (rs, s2) = markCalls ns s1 in (r # rs, s2))"

subsection \<open>The internal loop\<close>

text \<open>\<open>const basicGet = () => toBase64Url48(platformGetNowMs())\<close>\<close>

definition basicGet :: "int \<Rightarrow> js_error + string" where
  "basicGet nowMs = toBase64Url48 (NumberV nowMs)"

text \<open>\<open>updateCachedNow\<close> (defined in the source, called nowhere).\<close>

definition updateCachedNow :: "int \<Rightarrow> tsgen \<Rightarrow> js_error + tsgen" where
  "updateCachedNow ms s =
     (case toBase64Url48 (NumberV ms) of
        Inl e \<Rightarrow> Inl e
      | Inr str \<Rightarrow> Inr (s\<lparr>lastMs := ms, cached := str\<rparr>))"

text \<open>
  The loop's idle check,
  \<open>if (Date.now() - lastHighActivityAt > cfg.perfCooldownMs) internalController.stopRequested = true\<close>.
\<close>

definition idleCheck :: "int \<Rightarrow> tsgen \<Rightarrow> tsgen" where
  "idleCheck nowMs s =
     (if nowMs - lastHighActivityAt s > perfCooldownMs (cfg s)
      then s\<lparr>internalController := map_option (\<lambda>_. True) (internalController s)\<rparr>
      else s)"

text \<open>
  The \<open>while\<close> loop of the asynchronous body, from the test of its condition until the
  body suspends at its \<open>await\<close> or ends. An iteration that sees a new millisecond writes
  the cache and goes on without yielding; an iteration that sees the same millisecond
  suspends, and the body is kept with its \<open>localLastMs\<close>. When the loop ends, or an
  exception reaches the \<open>catch\<close> handler, \<open>internalRunning\<close> is set to false.
\<close>

function internalLoop :: "int \<Rightarrow> int \<Rightarrow> tsgen \<Rightarrow> tsgen" where
  "internalLoop nowMs localLastMs s =
     (case internalController s of
        None \<Rightarrow> s\<lparr>internalRunning := False\<rparr>
      | Some stopRequested \<Rightarrow>
          if stopRequested then s\<lparr>internalRunning := False\<rparr>
          else if nowMs \<noteq> localLastMs then
            (case toBase64Url48 (NumberV nowMs) of
               Inl e \<Rightarrow> s\<lparr>internalRunning := False\<rparr>
             | Inr str \<Rightarrow> internalLoop nowMs nowMs (idleCheck nowMs (s\<lparr>cached := str\<rparr>)))
          else s\<lparr>loops := loops s @ [localLastMs]\<rparr>)"
  by pat_completeness auto
termination
  by (relation "measure (\<lambda>(nowMs, localLastMs, s). if nowMs \<noteq> localLastMs then 1 else 0)") auto

declare internalLoop.simps [simp del]

definition startInternalLoop :: "int \<Rightarrow> tsgen \<Rightarrow> tsgen" where
  "startInternalLoop nowMs s =
     (if internalRunning s then s
      else
        let s1 = s\<lparr>internalRunning := True, lastHighActivityAt := nowMs,
                   internalController := Some False\<rparr>
        in case toBase64Url48 (NumberV nowMs) of
             Inl e \<Rightarrow> s1\<lparr>internalRunning := False\<rparr>
           | Inr str \<Rightarrow> internalLoop nowMs nowMs (s1\<lparr>cached := str\<rparr>))"

text \<open>
  The scheduler resumes the \<open>k\<close>-th suspended body after its \<open>await\<close>: the idle check
  that ends the iteration, then the loop again.
\<close>

definition resumeLoop :: "nat \<Rightarrow> int \<Rightarrow> tsgen \<Rightarrow> tsgen" where
  "resumeLoop k nowMs s =
     (if k < length (loops s) then
        let localLastMs = loops s ! k;
            s1 = s\<lparr>loops := take k (loops s) @ drop (Suc k) (loops s)\<rparr>
        in internalLoop nowMs localLastMs (idleCheck nowMs s1)
      else s)"

definition stopInternalLoop :: "tsgen \<Rightarrow> tsgen" where
  "stopInternalLoop s =
     s\<lparr>internalController := map_option (\<lambda>_. True) (internalController s),
       internalRunning := False\<rparr>"

subsection \<open>The worker\<close>

text \<open>\<open>worker.terminate()\<close>: the thread executes no further JavaScript.\<close>

definition terminate :: "nat \<Rightarrow> thread list \<Rightarrow> thread list" where
  "terminate k ts = (if k < length ts then ts[k := (ts ! k)\<lparr>stopped := True\<rparr>] else ts)"

definition stopWorker :: "tsgen \<Rightarrow> tsgen" where
  "stopWorker s =
     s\<lparr>threads := (case worker s of None \<Rightarrow> threads s | Some k \<Rightarrow> terminate k (threads s)),
       worker := None, workerRunning := False\<rparr>"

text \<open>
  \<open>startWorker\<close>; the argument \<open>spawn_ok\<close> tells whether \<open>new WorkerCtor(...)\<close>
  returns a worker (true) or throws (false). The three handlers are registered on the
  new worker and are the functions \<open>on_message\<close>, \<open>on_error\<close> and \<open>on_exit\<close> below.
\<close>

definition startWorker :: "bool \<Rightarrow> int \<Rightarrow> tsgen \<Rightarrow> tsgen" where
  "startWorker spawn_ok nowMs s =
     (if workerRunning s then s\<lparr>lastHighActivityAt := nowMs\<rparr>
      else if \<not> workerCtor s then startInternalLoop nowMs s
      else
        let s1 = s\<lparr>lastHighActivityAt := nowMs\<rparr>
        in if \<not> spawn_ok then startInternalLoop nowMs s1
           else s1\<lparr>worker := Some (length (threads s1)),
                   threads := threads s1 @ [new_thread],
                   workerRunning := True\<rparr>)"

definition on_message :: "js_value \<Rightarrow> int \<Rightarrow> tsgen \<Rightarrow> tsgen" where
  "on_message msg nowMs s =
     (let s1 = (case msg of JString str \<Rightarrow> s\<lparr>cached := str\<rparr> | JObject \<Rightarrow> s)
      in s1\<lparr>lastHighActivityAt := nowMs\<rparr>)"

definition on_error :: "int \<Rightarrow> tsgen \<Rightarrow> tsgen" where
  "on_error nowMs s = startInternalLoop nowMs (stopWorker s)"

definition on_exit :: "int \<Rightarrow> int \<Rightarrow> tsgen \<Rightarrow> tsgen" where
  "on_exit code nowMs s =
     (let s1 = s\<lparr>workerRunning := False, worker := None\<rparr>
      in if code \<noteq> 0 then startInternalLoop nowMs s1 else s1)"

subsection \<open>The public functions\<close>

definition requestPerf :: "bool \<Rightarrow> int \<Rightarrow> tsgen \<Rightarrow> tsgen" where
  "requestPerf spawn_ok nowMs s =
     (let s1 = s\<lparr>lastHighActivityAt := nowMs\<rparr>
      in if prefer (cfg s1) = ''basic'' then s1
         else if prefer (cfg s1) = ''worker'' then startWorker spawn_ok nowMs s1
         else if prefer (cfg s1) = ''internal'' then startInternalLoop nowMs s1
         else if workerCtor s1 then startWorker spawn_ok nowMs s1
         else startInternalLoop nowMs s1)"

text \<open>\<open>get()\<close>: the value returned (or the exception raised) and the state afterwards.\<close>

definition get :: "bool \<Rightarrow> int \<Rightarrow> int \<Rightarrow> tsgen \<Rightarrow> (js_error + string) \<times> tsgen" where
  "get spawn_ok nowMs nowNano s =
     (if workerRunning s then
        let s1 = s\<lparr>lastHighActivityAt := nowMs\<rparr>
        in (Inr (cached s1), snd (markCall nowNano s1))
      else if internalRunning s then
        let s1 = s\<lparr>lastHighActivityAt := nowMs\<rparr>
        in (Inr (cached s1), snd (markCall nowNano s1))
      else
        let (shouldStartPerf, s1) = markCall nowNano s;
            s2 = (if shouldStartPerf then requestPerf spawn_ok nowMs s1 else s1)
        in (basicGet nowMs, s2))"

definition start :: "string option \<Rightarrow> bool \<Rightarrow> int \<Rightarrow> tsgen \<Rightarrow> tsgen" where
  "start mode spawn_ok nowMs s =
     (if mode = Some ''worker'' then startWorker spawn_ok nowMs s
      else if mode = Some ''internal'' then startInternalLoop nowMs s
      else requestPerf spawn_ok nowMs s)"

definition stop :: "tsgen \<Rightarrow> tsgen" where
  "stop s = stopWorker (stopInternalLoop s)"

subsection \<open>Executions\<close>

text \<open>
  What can happen to a generator, one synchronous step at a time: a call of a public
  function, the scheduler resuming a suspended loop body, a worker thread running a
  piece of its script, and the three events of a worker. Each carries the clock
  readings of the step (\<open>Date.now()\<close>, and for \<open>get()\<close> also the nanosecond
  counter); \<open>Get\<close> and \<open>Start\<close> also carry the outcome of constructing a worker,
  should the call come to it; loops and workers are named by their position. A
  \<open>message\<close> event delivers the oldest undelivered message of that worker; an \<open>exit\<close>
  event is the worker's last event, with its exit code.
\<close>

datatype event =
    Get bool int int
  | Start "string option" bool int
  | Stop
  | LoopResume nat int
  | WorkerStep nat int
  | WorkerMessage nat int
  | WorkerError nat int
  | WorkerExit nat int int

fun step :: "event \<Rightarrow> tsgen \<Rightarrow> tsgen" where
  "step (Get spawn_ok nowMs nowNano) s = snd (get spawn_ok nowMs nowNano s)"
| "step (Start mode spawn_ok nowMs) s = start mode spawn_ok nowMs s"
| "step Stop s = stop s"
| "step (LoopResume k nowMs) s = resumeLoop k nowMs s"
| "step (WorkerStep k nowMs) s =
     (if k < length (threads s)
      then s\<lparr>threads := (threads s)[k := worker_step nowMs (threads s ! k)]\<rparr>
      else s)"
| "step (WorkerMessage k nowMs) s =
     (if k < length (threads s) then
        (case outbox (threads s ! k) of
           [] \<Rightarrow> s
         | msg # rest \<Rightarrow>
             on_message msg nowMs
               (s\<lparr>threads := (threads s)[k := (threads s ! k)\<lparr>outbox := rest\<rparr>]\<rparr>))
      else s)"
| "step (WorkerError k nowMs) s =
     (if k < length (threads s) then
        on_error nowMs (s\<lparr>threads := (threads s)[k := (threads s ! k)\<lparr>stopped := True\<rparr>]\<rparr>)
      else s)"
| "step (WorkerExit k code nowMs) s =
     (if k < length (threads s) then
        on_exit code nowMs
          (s\<lparr>threads := (threads s)[k := (threads s ! k)\<lparr>stopped := True, outbox := []\<rparr>]\<rparr>)
      else s)"

fun run :: "event list \<Rightarrow> tsgen \<Rightarrow> tsgen" where
  "run [] s = s"
| "run (e # es) s = run es (step e s)"

text \<open>
  The values returned by the calls of \<open>get()\<close> in an execution that took the cached
  path (a refresher was flagged running when the call was made).
\<close>

fun promoted_gets :: "event list \<Rightarrow> tsgen \<Rightarrow> string list" where
  "promoted_gets [] s = []"
| "promoted_gets (Get spawn_ok nowMs nowNano # es) s =
     (if workerRunning s \<or> internalRunning s then
        (case fst (get spawn_ok nowMs nowNano s) of Inl e \<Rightarrow> [] | Inr str \<Rightarrow> [str])
      else [])
     @ promoted_gets es (step (Get spawn_ok nowMs nowNano) s)"
| "promoted_gets (e # es) s = promoted_gets es (step e s)"

text \<open>The millisecond clock readings of an execution, in order.\<close>

fun event_ms :: "event \<Rightarrow> int list" where
  "event_ms (Get spawn_ok nowMs nowNano) = [nowMs]"
| "event_ms (Start mode spawn_ok nowMs) = [nowMs]"
| "event_ms Stop = []"
| "event_ms (LoopResume k nowMs) = [nowMs]"
| "event_ms (WorkerStep k nowMs) = [nowMs]"
| "event_ms (WorkerMessage k nowMs) = [nowMs]"
| "event_ms (WorkerError k nowMs) = [nowMs]"
| "event_ms (WorkerExit k code nowMs) = [nowMs]"

definition clock :: "event list \<Rightarrow> int list" where
  "clock es = concat (map event_ms es)"

subsection \<open>Invariants and classes of steps used in the proofs\<close>

text \<open>
  The cache and every undelivered worker message hold well-formed encoded timestamps
  (a message may also be the error object).
\<close>

fun msg_ok :: "js_value \<Rightarrow> bool" where
  "msg_ok (JString str) = valid_ts str"
| "msg_ok JObject = True"

definition cache_ok :: "tsgen \<Rightarrow> bool" where
  "cache_ok s \<longleftrightarrow>
     valid_ts (cached s) \<and> list_all (\<lambda>th. list_all msg_ok (outbox th)) (threads s)"

text \<open>
  Steps that deliver no worker message: with only such steps, the internal loops are
  the only writers of the cache.
\<close>

fun no_delivery :: "event \<Rightarrow> bool" where
  "no_delivery (WorkerMessage k nowMs) = False"
| "no_delivery e = True"

text \<open>
  Steps of an execution in which worker \<open>k\<close> is the only refresher: calls of \<open>get()\<close>,
  the worker's own steps and the delivery of its messages.
\<close>

fun worker_only :: "nat \<Rightarrow> event \<Rightarrow> bool" where
  "worker_only k (Get spawn_ok nowMs nowNano) = True"
| "worker_only k (WorkerStep j nowMs) = (j = k)"
| "worker_only k (WorkerMessage j nowMs) = (j = k)"
| "worker_only k e = False"

text \<open>The contents of the cache before each step of an execution and at its end.\<close>

fun cache_history :: "event list \<Rightarrow> tsgen \<Rightarrow> string list" where
  "cache_history [] s = [cached s]"
| "cache_history (e # es) s = cached s # cache_history es (step e s)"

section \<open>Properties of the encoder\<close>

subsection \<open>Bit operations as division and remainder\<close>

lemma and_mask48: "(v::int) AND (push_bit 48 1 - 1) = v mod 2 ^ 48"
proof -
  have m: "(push_bit 48 1 - 1 :: int) = mask 48"
    by (simp add: mask_eq_exp_minus_1)
  show ?thesis
    unfolding m by (simp only: take_bit_eq_mod flip: take_bit_eq_mask)
qed

lemma and_63: "(x::int) AND 0x3f = x mod 64"
proof -
  have m: "(0x3f :: int) = mask 6"
    by (simp add: mask_eq_exp_minus_1)
  have "x AND mask 6 = x mod 2 ^ 6"
    by (simp only: take_bit_eq_mod flip: take_bit_eq_mask)
  then show ?thesis
    unfolding m by simp
qed

lemma digit_idx: "nat (drop_bit k (n::int) AND 0x3f) = nat (n div 2 ^ k mod 64)"
  by (simp only: and_63 drop_bit_eq_div)

lemma encode_loop_unroll:
  "encode_loop 0 42 n (replicate 8 None) =
     map (\<lambda>k. Some (ASCII_BASE64_ALPHA ! nat (n div 2 ^ k mod 64))) [42, 36, 30, 24, 18, 12, 6, 0]"
  by (simp add: encode_loop.simps [of _ _ n] and_63 drop_bit_eq_div Let_def numeral_eq_Suc)

lemma encode48_digits:
  "encode48 v =
     map (\<lambda>k. ASCII_BASE64_ALPHA ! nat (v mod 2 ^ 48 div 2 ^ k mod 64)) [42, 36, 30, 24, 18, 12, 6, 0]"
  unfolding encode48_def Let_def and_mask48 encode_loop_unroll by simp

subsection \<open>Base-64 digits\<close>

lemma length_digits64 [simp]: "length (digits64 k n) = k"
  by (induction k arbitrary: n) auto

lemma digits64_bound: "d \<in> set (digits64 k n) \<Longrightarrow> 0 \<le> d \<and> d < 64"
  by (induction k arbitrary: n) auto

lemma digits64_8:
  "digits64 8 n = map (\<lambda>k. n div 2 ^ k mod 64) [42, 36, 30, 24, 18, 12, 6, 0]"
proof -
  have "digits64 (Suc (Suc (Suc (Suc (Suc (Suc (Suc (Suc 0)))))))) n =
      map (\<lambda>k. n div 2 ^ k mod 64) [42, 36, 30, 24, 18, 12, 6, 0]"
    by (simp flip: zdiv_zmult2_eq)
  then show ?thesis
    by (simp add: numeral_eq_Suc)
qed

lemma digits64_less:
  "0 \<le> a \<Longrightarrow> a < b \<Longrightarrow> b < 64 ^ k \<Longrightarrow> digits64 k a < digits64 k b"
proof (induction k arbitrary: a b)
  case 0
  then show ?case by simp
next
  case (Suc k)
  have le: "a div 64 \<le> b div 64"
    using Suc.prems by (simp add: zdiv_mono1)
  show ?case
  proof (cases "a div 64 = b div 64")
    case True
    have "a mod 64 < b mod 64"
      using Suc.prems(2) True by (metis add_less_cancel_left mult_div_mod_eq)
    then have "([a mod 64], [b mod 64]) \<in> lexord {(u, v). u < v}"
      by simp
    then have "(digits64 k (b div 64) @ [a mod 64], digits64 k (b div 64) @ [b mod 64])
        \<in> lexord {(u, v). u < v}"
      by (rule lexord_append_leftI)
    then show ?thesis
      by (simp add: True list_less_def)
  next
    case False
    with le have lt: "a div 64 < b div 64" by simp
    have a0: "0 \<le> a div 64"
      using Suc.prems(1) by simp
    have bk: "b div 64 < 64 ^ k"
      using Suc.prems(3) by simp
    from a0 lt bk have "digits64 k (a div 64) < digits64 k (b div 64)"
      by (rule Suc.IH)
    then have "(digits64 k (a div 64), digits64 k (b div 64)) \<in> lexord {(u, v). u < v}"
      by (simp add: list_less_def)
    then have "(digits64 k (a div 64) @ [a mod 64], digits64 k (b div 64) @ [b mod 64])
        \<in> lexord {(u, v). u < v}"
      by (rule lexord_sufI) simp
    then show ?thesis
      by (simp add: list_less_def)
  qed
qed

lemma foldl_digits64:
  "0 \<le> n \<Longrightarrow> foldl (\<lambda>acc d. acc * 64 + d) 0 (digits64 k n) = n mod 64 ^ k"
proof (induction k arbitrary: n)
  case 0
  then show ?case by simp
next
  case (Suc k)
  have "0 \<le> n div 64"
    using Suc.prems by simp
  then have "foldl (\<lambda>acc d. acc * 64 + d) 0 (digits64 k (n div 64)) = n div 64 mod 64 ^ k"
    by (rule Suc.IH)
  moreover have "n mod (64 * 64 ^ k) = 64 * (n div 64 mod 64 ^ k) + n mod 64"
    by (rule zmod_zmult2_eq) simp
  ultimately show ?case
    by simp
qed

subsection \<open>The alphabet and the order of encodings\<close>

lemma length_alpha: "length ASCII_BASE64_ALPHA = 64"
  by (simp add: ASCII_BASE64_ALPHA_def)

lemma sorted_alpha: "sorted_wrt (<) ASCII_BASE64_ALPHA"
  by (simp add: ASCII_BASE64_ALPHA_def less_char_def)

lemma alpha_nth_less: "i < j \<Longrightarrow> j < 64 \<Longrightarrow> ASCII_BASE64_ALPHA ! i < ASCII_BASE64_ALPHA ! j"
  using sorted_alpha by (simp add: sorted_wrt_nth_less length_alpha)

lemma ordinal_nth: "i < 64 \<Longrightarrow> ordinal (ASCII_BASE64_ALPHA ! i) = i"
proof -
  assume i: "i < 64"
  have "takeWhile (\<lambda>x. x \<noteq> ASCII_BASE64_ALPHA ! i) ASCII_BASE64_ALPHA = take i ASCII_BASE64_ALPHA"
  proof (rule takeWhile_eq_take_P_nth)
    fix j assume "j < i" "j < length ASCII_BASE64_ALPHA"
    then show "ASCII_BASE64_ALPHA ! j \<noteq> ASCII_BASE64_ALPHA ! i"
      using alpha_nth_less [of j i] i by auto
  qed simp
  then show ?thesis
    using i by (simp add: ordinal_def length_alpha)
qed

lemma alpha_at_less: "0 \<le> c \<Longrightarrow> c < d \<Longrightarrow> d < 64 \<Longrightarrow> alpha_at c < alpha_at d"
  by (simp add: alpha_at_def alpha_nth_less)

lemma map_alpha_less:
  "\<forall>d \<in> set xs. 0 \<le> d \<and> d < 64 \<Longrightarrow> \<forall>d \<in> set ys. 0 \<le> d \<and> d < 64 \<Longrightarrow> xs < ys \<Longrightarrow>
     map alpha_at xs < map alpha_at ys"
proof (induction xs arbitrary: ys)
  case Nil
  then show ?case by (cases ys) auto
next
  case (Cons x xs)
  then show ?case
    by (cases ys) (auto simp: alpha_at_less)
qed

lemma encode48_alpha: "encode48 v = map alpha_at (digits64 8 (v mod 2 ^ 48))"
  by (simp add: encode48_digits digits64_8 alpha_at_def)

lemma decode_map_alpha:
  "\<forall>d \<in> set ds. 0 \<le> d \<and> d < 64 \<Longrightarrow>
     foldl (\<lambda>acc c. acc * 64 + int (ordinal c)) a (map alpha_at ds) =
     foldl (\<lambda>acc d. acc * 64 + d) a ds"
  by (induction ds arbitrary: a) (auto simp: alpha_at_def ordinal_nth)

lemma decode_encode48: "decode_ordinal (encode48 v) = v mod 2 ^ 48"
proof -
  have "decode_ordinal (encode48 v) = foldl (\<lambda>acc d. acc * 64 + d) 0 (digits64 8 (v mod 2 ^ 48))"
    unfolding decode_ordinal_def encode48_alpha
    by (rule decode_map_alpha) (simp add: digits64_bound)
  also have "\<dots> = v mod 2 ^ 48 mod 64 ^ 8"
    by (rule foldl_digits64) simp
  finally show ?thesis by simp
qed

lemma encode48_less:
  assumes "0 \<le> a" "a < b" "b < 2 ^ 48"
  shows "encode48 a < encode48 b"
proof -
  have "digits64 8 a < digits64 8 b"
    using assms by (intro digits64_less) simp_all
  moreover have "a mod 2 ^ 48 = a" "b mod 2 ^ 48 = b"
    using assms by simp_all
  ultimately show ?thesis
    unfolding encode48_alpha by (simp add: map_alpha_less digits64_bound)
qed

lemma length_encode48: "length (encode48 v) = 8"
  by (simp add: encode48_alpha)

lemma set_encode48: "set (encode48 v) \<subseteq> set ASCII_BASE64_ALPHA"
proof
  fix c assume "c \<in> set (encode48 v)"
  then obtain d where d: "d \<in> set (digits64 8 (v mod 2 ^ 48))" and c: "c = alpha_at d"
    by (auto simp: encode48_alpha)
  have "0 \<le> d \<and> d < 64"
    using d by (rule digits64_bound)
  then have "nat d < length ASCII_BASE64_ALPHA"
    unfolding length_alpha by linarith
  then show "c \<in> set ASCII_BASE64_ALPHA"
    unfolding c alpha_at_def by (rule nth_mem)
qed

lemma encode48_mod: "encode48 (v mod 2 ^ 48) = encode48 v"
  by (simp add: encode48_alpha)

lemma worker_encode_loop_eq: "worker_encode_loop i shift n out = encode_loop i shift n out"
proof (induction i shift n out rule: encode_loop.induct)
  case (1 i shift n out)
  show ?case
  proof (cases "i < 8")
    case True
    then show ?thesis
      using "1.IH" [OF True refl]
      by (subst worker_encode_loop.simps, subst encode_loop.simps)
        (simp add: Let_def worker_ASCII_BASE64_ALPHA_def ASCII_BASE64_ALPHA_def)
  next
    case False
    then show ?thesis
      by (subst worker_encode_loop.simps, subst encode_loop.simps) simp
  qed
qed

lemma worker_encode48_eq: "worker_encode48 v = encode48 v"
  by (simp add: worker_encode48_def encode48_def worker_encode_loop_eq)

lemma toBase64Url48_NumberV [simp]: "toBase64Url48 (NumberV n) = Inr (encode48 n)"
  by (simp add: toBase64Url48_def)

lemma toBase64Url48_BigIntV [simp]: "toBase64Url48 (BigIntV n) = Inr (encode48 n)"
  by (simp add: toBase64Url48_def)

lemma toBase64Url48_NonIntegralV [simp]: "toBase64Url48 NonIntegralV = Inl RangeError"
  by (simp add: toBase64Url48_def)

lemma worker_toBase64Url48_eq: "worker_toBase64Url48 v = toBase64Url48 v"
  by (cases v) (simp_all add: worker_toBase64Url48_def toBase64Url48_def worker_encode48_eq)

lemma valid_ts_encode48 [simp]: "valid_ts (encode48 v)"
  by (simp add: valid_ts_def length_encode48 set_encode48)

subsection \<open>Claims about the encoder\<close>

text \<open>
  C1. On the 48-bit domain the encoder is injective and strictly order-preserving: for
  every \<open>n\<close> with \<open>0 \<le> n < 2^48\<close>, given as a Number or as a BigInt, the result is a
  string whose reading by alphabet ordinal is \<open>n\<close> again, and for \<open>n1 < n2\<close> in that
  range the encoding of \<open>n1\<close> is strictly below the encoding of \<open>n2\<close> in the
  lexicographic order of strings (characters compared by their codes).
\<close>

theorem encoder_roundtrip_and_order:
  "(0 \<le> n \<and> n < 2 ^ 48 \<longrightarrow>
      toBase64Url48 (NumberV n) = Inr (encode48 n) \<and>
      toBase64Url48 (BigIntV n) = Inr (encode48 n) \<and>
      decode_ordinal (encode48 n) = n) \<and>
   (0 \<le> n1 \<and> n1 < n2 \<and> n2 < 2 ^ 48 \<longrightarrow> encode48 n1 < encode48 n2) \<and>
   inj_on encode48 {0 ..< 2 ^ 48}"
proof (intro conjI impI)
  assume "0 \<le> n \<and> n < 2 ^ 48"
  then show "decode_ordinal (encode48 n) = n"
    by (simp add: decode_encode48)
next
  assume "0 \<le> n1 \<and> n1 < n2 \<and> n2 < 2 ^ 48"
  then show "encode48 n1 < encode48 n2"
    by (simp add: encode48_less)
next
  show "inj_on encode48 {0 ..< 2 ^ 48}"
  proof (rule inj_onI)
    fix x y :: int
    assume x: "x \<in> {0 ..< 2 ^ 48}" and y: "y \<in> {0 ..< 2 ^ 48}"
      and eq: "encode48 x = encode48 y"
    have "x mod 2 ^ 48 = decode_ordinal (encode48 x)"
      by (simp only: decode_encode48)
    also have "\<dots> = y mod 2 ^ 48"
      by (simp only: eq decode_encode48)
    finally have "x mod 2 ^ 48 = y mod 2 ^ 48" .
    moreover have "x mod 2 ^ 48 = x"
      using x by (intro mod_pos_pos_trivial) simp_all
    moreover have "y mod 2 ^ 48 = y"
      using y by (intro mod_pos_pos_trivial) simp_all
    ultimately show "x = y" by simp
  qed
qed simp_all

theorem encoder_roundtrip_and_order_witness:
  "(0::int) \<le> 1700000000000 \<and> (1700000000000::int) < 2 ^ 48 \<and>
   decode_ordinal (encode48 1700000000000) = 1700000000000 \<and>
   (1699999999999::int) < 1700000000000 \<and>
   encode48 1699999999999 < encode48 1700000000000"
  using encoder_roundtrip_and_order [of 1700000000000 1699999999999 1700000000000]
  by simp

text \<open>
  C2. The encoder is total: for every timestamp it is given, that is for every integer
  of any size and sign, as a BigInt or as a Number, it raises nothing and returns a
  string of exactly 8 characters, each from the 64-character alphabet; what lies above
  the low 48 bits is dropped silently: the string depends only on the low 48 bits of
  the argument and reads back, by alphabet ordinal, as those 48 bits.
\<close>

theorem encoder_total:
  "toBase64Url48 (BigIntV n) = Inr (encode48 n) \<and>
   toBase64Url48 (NumberV n) = Inr (encode48 n) \<and>
   length (encode48 n) = 8 \<and>
   set (encode48 n) \<subseteq> set ASCII_BASE64_ALPHA \<and>
   length ASCII_BASE64_ALPHA = 64 \<and>
   encode48 n = encode48 (take_bit 48 n) \<and>
   decode_ordinal (encode48 n) = take_bit 48 n"
proof -
  have "encode48 n = encode48 (take_bit 48 n)"
    by (simp only: take_bit_eq_mod encode48_mod)
  moreover have "decode_ordinal (encode48 n) = take_bit 48 n"
    by (simp only: take_bit_eq_mod decode_encode48)
  ultimately show ?thesis
    using length_encode48 [of n] set_encode48 [of n] length_alpha by simp
qed

text \<open>
  C10. The encoder written out again in the worker script computes the same function as
  the encoder of the main module, over the same alphabet: on every argument both give
  the same outcome, which for an integer argument (Number or BigInt) is the same string
  of 8 characters, and for a Number that is not an integer the same error.
\<close>

theorem worker_encoder_equal:
  "worker_toBase64Url48 v = toBase64Url48 v \<and>
   worker_ASCII_BASE64_ALPHA = ASCII_BASE64_ALPHA \<and>
   worker_toBase64Url48 (NumberV n) = Inr (encode48 n) \<and>
   toBase64Url48 (NumberV n) = Inr (encode48 n) \<and>
   worker_toBase64Url48 (BigIntV n) = Inr (encode48 n) \<and>
   toBase64Url48 (BigIntV n) = Inr (encode48 n) \<and>
   length (encode48 n) = 8"
  by (simp add: worker_toBase64Url48_eq worker_ASCII_BASE64_ALPHA_def ASCII_BASE64_ALPHA_def
      length_encode48)

section \<open>Call-rate telemetry\<close>

lemma bigint_div_nonneg: "0 \<le> a \<Longrightarrow> bigint_div a 1000 = a div 1000"
  by (cases "a = 0") (simp_all add: bigint_div_def)

lemma elapsed_ge_iff: "T \<le> a div 1000 \<longleftrightarrow> 1000 * T \<le> (a::int)"
proof
  assume "T \<le> a div 1000"
  then have "1000 * T \<le> 1000 * (a div 1000)" by simp
  also have "\<dots> \<le> a"
    using mult_div_mod_eq [of 1000 a] pos_mod_sign [of 1000 a] by linarith
  finally show "1000 * T \<le> a" .
next
  assume "1000 * T \<le> a"
  then have "(1000 * T) div 1000 \<le> a div 1000"
    by (intro zdiv_mono1) simp_all
  then show "T \<le> a div 1000" by simp
qed

lemma markCall_refines:
  assumes "windowStartNano s \<le> nowN"
  shows "markCall nowN s = record_call_spec nowN s"
  using assms
  by (simp add: markCall_def record_call_spec_def Let_def bigint_div_nonneg elapsed_ge_iff)

lemma markCalls_burst:
  "\<forall>n \<in> set ns. windowStartNano s \<le> n \<and> n - windowStartNano s < 1000 * thresholdWindowUs (cfg s) \<Longrightarrow>
   markCalls ns s = (replicate (length ns) False, s\<lparr>callsInWindow := callsInWindow s + int (length ns)\<rparr>)"
proof (induction ns arbitrary: s)
  case Nil
  then show ?case by simp
next
  case (Cons n ns)
  have n: "windowStartNano s \<le> n" "n - windowStartNano s < 1000 * thresholdWindowUs (cfg s)"
    using Cons.prems by simp_all
  have m: "markCall n s = (False, s\<lparr>callsInWindow := callsInWindow s + 1\<rparr>)"
    using n by (simp add: markCall_refines record_call_spec_def Let_def)
  have "markCalls ns (s\<lparr>callsInWindow := callsInWindow s + 1\<rparr>) =
      (replicate (length ns) False,
       s\<lparr>callsInWindow := callsInWindow s + 1\<rparr>\<lparr>callsInWindow := callsInWindow (s\<lparr>callsInWindow := callsInWindow s + 1\<rparr>) + int (length ns)\<rparr>)"
    by (rule Cons.IH) (use Cons.prems in simp)
  then show ?case
    by (simp add: m add.assoc)
qed

text \<open>
  C4. \<open>markCall\<close> is the specified algorithm: with a monotonic clock (the reading is not
  before the window start) it returns the same result and leaves the same state as
  \<open>record_call_spec\<close>, which increments the counter, compares the elapsed time with the
  window, and either evaluates \<open>counter \<ge> threshold_calls\<close> and resets counter and window
  start, or returns false and resets nothing. Hence a burst of calls that all come before
  the window has elapsed returns false at every call, whatever the count, and only
  counts the calls.
\<close>

theorem markCall_algorithm:
  "(windowStartNano s \<le> nowN \<longrightarrow> markCall nowN s = record_call_spec nowN s) \<and>
   ((\<forall>n \<in> set ns. windowStartNano s \<le> n \<and>
        n - windowStartNano s < 1000 * thresholdWindowUs (cfg s)) \<longrightarrow>
      fst (markCalls ns s) = replicate (length ns) False \<and>
      snd (markCalls ns s) = s\<lparr>callsInWindow := callsInWindow s + int (length ns)\<rparr>)"
  by (simp add: markCall_refines markCalls_burst)

theorem markCall_algorithm_witness:
  "windowStartNano ((init_state True defaultOptions (encode48 10) 10 0)\<lparr>callsInWindow := 7\<rparr>)
     \<le> 6000 \<and>
   markCall 6000 ((init_state True defaultOptions (encode48 10) 10 0)\<lparr>callsInWindow := 7\<rparr>) =
     (True, (init_state True defaultOptions (encode48 10) 10 0)
              \<lparr>callsInWindow := 0, windowStartNano := 6000\<rparr>) \<and>
   list_all
     (\<lambda>n. windowStartNano
            ((init_state True defaultOptions (encode48 10) 10 0)\<lparr>callsInWindow := 7\<rparr>) \<le> n \<and>
          n - windowStartNano
                ((init_state True defaultOptions (encode48 10) 10 0)\<lparr>callsInWindow := 7\<rparr>)
            < 1000 * thresholdWindowUs
                (cfg ((init_state True defaultOptions (encode48 10) 10 0)\<lparr>callsInWindow := 7\<rparr>)))
     [1000, 2000, 3000, 4000, 4999] \<and>
   fst (markCalls [1000, 2000, 3000, 4000, 4999]
          ((init_state True defaultOptions (encode48 10) 10 0)\<lparr>callsInWindow := 7\<rparr>)) =
     [False, False, False, False, False]"
  using markCall_algorithm [of
      "(init_state True defaultOptions (encode48 10) 10 0)\<lparr>callsInWindow := 7\<rparr>" 6000
      "[1000, 2000, 3000, 4000, 4999]"]
  by (simp add: record_call_spec_def defaultOptions_def init_state_def)

section \<open>Construction\<close>

lemma createTSGen_Inr:
  "createTSGen wc opts t0 n0 =
     Inr (init_state wc (assign defaultOptions opts) (encode48 t0) t0 n0)"
  by (simp add: createTSGen_def)

lemma module_load_ok: "module_load = Inr ()"
  by (simp add: module_load_def length_alpha)

text \<open>
  C9, as the code has it. The only check made before a generator exists is the
  module-level test that the alphabet has 64 characters, which the alphabet passes.
  \<open>createTSGen\<close> validates nothing: whatever the options, it returns a generator, and
  the thresholds of its configuration are the given ones (the defaults where a key is
  absent), be they positive or not.
\<close>

theorem construction_accepts_any_thresholds:
  "module_load = Inr () \<and>
   (\<exists>s. construct wc opts nowMs nowNano = Inr s \<and> cfg s = assign defaultOptions opts \<and>
     thresholdCalls (cfg s) =
       (case opt_thresholdCalls opts of None \<Rightarrow> 5 | Some v \<Rightarrow> v) \<and>
     thresholdWindowUs (cfg s) =
       (case opt_thresholdWindowUs opts of None \<Rightarrow> 5 | Some v \<Rightarrow> v))"
  by (simp add: construct_def module_load_ok createTSGen_Inr assign_def defaultOptions_def
      init_state_def split: option.splits)

text \<open>
  C9 as stated fails: \<open>createTSGen({ thresholdCalls: 0, thresholdWindowUs: -1 })\<close> raises
  no error and returns a generator configured with these two values.
\<close>

theorem construction_no_validation_counterexample:
  "construct True
     \<lparr>opt_thresholdCalls = Some 0, opt_thresholdWindowUs = Some (- 1),
      opt_perfCooldownMs = None, opt_prefer = None\<rparr> 10 0 =
   Inr (init_state True
         \<lparr>thresholdCalls = 0, thresholdWindowUs = - 1, perfCooldownMs = 1000,
          prefer = ''auto''\<rparr> (encode48 10) 10 0)"
  by (simp add: construct_def module_load_ok createTSGen_Inr assign_def defaultOptions_def)

section \<open>The policy \<open>basic\<close>\<close>

lemma get_basic:
  assumes "prefer (cfg s) = ''basic''" "\<not> internalRunning s" "\<not> workerRunning s"
  shows "prefer (cfg (snd (get sp t n s))) = ''basic'' \<and>
         \<not> internalRunning (snd (get sp t n s)) \<and>
         \<not> workerRunning (snd (get sp t n s)) \<and>
         loops (snd (get sp t n s)) = loops s \<and>
         threads (snd (get sp t n s)) = threads s \<and>
         worker (snd (get sp t n s)) = worker s \<and>
         internalController (snd (get sp t n s)) = internalController s \<and>
         fst (get sp t n s) = basicGet t"
  using assms
  by (simp add: get_def markCall_def requestPerf_def Let_def split: prod.splits)

lemma run_gets_basic:
  assumes "prefer (cfg s) = ''basic''" "\<not> internalRunning s" "\<not> workerRunning s"
  shows "\<not> internalRunning (run (map (\<lambda>(sp, t, n). Get sp t n) gs) s) \<and>
         \<not> workerRunning (run (map (\<lambda>(sp, t, n). Get sp t n) gs) s) \<and>
         loops (run (map (\<lambda>(sp, t, n). Get sp t n) gs) s) = loops s \<and>
         threads (run (map (\<lambda>(sp, t, n). Get sp t n) gs) s) = threads s \<and>
         worker (run (map (\<lambda>(sp, t, n). Get sp t n) gs) s) = worker s \<and>
         internalController (run (map (\<lambda>(sp, t, n). Get sp t n) gs) s) = internalController s \<and>
         promoted_gets (map (\<lambda>(sp, t, n). Get sp t n) gs) s = []"
  using assms
proof (induction gs arbitrary: s)
  case Nil
  then show ?case by simp
next
  case (Cons g gs)
  obtain sp t n where g: "g = (sp, t, n)"
    by (cases g)
  let ?s = "snd (get sp t n s)"
  note 1 = get_basic [OF Cons.prems, of sp t n]
  from 1 have 2: "prefer (cfg ?s) = ''basic''" "\<not> internalRunning ?s" "\<not> workerRunning ?s"
    by simp_all
  show ?case
    using Cons.IH [OF 2] 1 Cons.prems by (simp add: g)
qed

text \<open>
  C5. A generator created with \<open>prefer: 'basic'\<close> is never promoted by calls of \<open>get()\<close>:
  after any sequence of such calls, whatever the clock readings (so at any frequency)
  and whatever the other options, no refresher is flagged running, no loop body is
  scheduled, no worker thread has been created, and no call took the cached path.
\<close>

theorem basic_never_promotes:
  assumes "opt_prefer opts = Some ''basic''"
  shows "\<exists>s0. createTSGen wc opts t0 n0 = Inr s0 \<and>
     (let es = map (\<lambda>(spawn_ok, nowMs, nowNano). Get spawn_ok nowMs nowNano) gs; s = run es s0
      in \<not> internalRunning s \<and> \<not> workerRunning s \<and> worker s = None \<and>
         internalController s = None \<and> loops s = [] \<and> threads s = [] \<and>
         promoted_gets es s0 = [])"
proof -
  let ?s0 = "init_state wc (assign defaultOptions opts) (encode48 t0) t0 n0"
  have "prefer (cfg ?s0) = ''basic''" "\<not> internalRunning ?s0" "\<not> workerRunning ?s0"
    using assms by (simp_all add: assign_def init_state_def)
  from run_gets_basic [OF this, of gs] show ?thesis
    by (simp add: createTSGen_Inr Let_def) (simp add: init_state_def)
qed

theorem basic_never_promotes_witness:
  "opt_prefer \<lparr>opt_thresholdCalls = Some 1, opt_thresholdWindowUs = Some 0,
      opt_perfCooldownMs = None, opt_prefer = Some ''basic''\<rparr> = Some ''basic'' \<and>
   (\<exists>s0. createTSGen True \<lparr>opt_thresholdCalls = Some 1, opt_thresholdWindowUs = Some 0,
      opt_perfCooldownMs = None, opt_prefer = Some ''basic''\<rparr> 10 0 = Inr s0 \<and>
     \<not> internalRunning (run [Get True 10 1000, Get True 10 2000, Get True 11 3000] s0) \<and>
     \<not> workerRunning (run [Get True 10 1000, Get True 10 2000, Get True 11 3000] s0) \<and>
     threads (run [Get True 10 1000, Get True 10 2000, Get True 11 3000] s0) = [])"
  using basic_never_promotes [of "\<lparr>opt_thresholdCalls = Some 1, opt_thresholdWindowUs = Some 0,
      opt_perfCooldownMs = None, opt_prefer = Some ''basic''\<rparr>" True 10 0
      "[(True, 10, 1000), (True, 10, 2000), (True, 11, 3000)]"]
  by (auto simp: Let_def)


section \<open>The controller\<close>

lemma internalLoop_same:
  "internalLoop t t s =
     (case internalController s of
        None \<Rightarrow> s\<lparr>internalRunning := False\<rparr>
      | Some stopRequested \<Rightarrow>
          if stopRequested then s\<lparr>internalRunning := False\<rparr> else s\<lparr>loops := loops s @ [t]\<rparr>)"
  by (subst internalLoop.simps) (simp split: option.splits)

lemma internalLoop_closed:
  "internalLoop t l s =
     (case internalController s of
        None \<Rightarrow> s\<lparr>internalRunning := False\<rparr>
      | Some stopRequested \<Rightarrow>
          if stopRequested then s\<lparr>internalRunning := False\<rparr>
          else if t \<noteq> l then
            (if t - lastHighActivityAt s > perfCooldownMs (cfg s)
             then s\<lparr>cached := encode48 t, internalController := Some True, internalRunning := False\<rparr>
             else s\<lparr>cached := encode48 t, loops := loops s @ [t]\<rparr>)
          else s\<lparr>loops := loops s @ [l]\<rparr>)"
  by (subst internalLoop.simps) (simp add: internalLoop_same idleCheck_def split: option.splits)

lemma startInternalLoop_closed:
  "startInternalLoop t s =
     (if internalRunning s then s
      else s\<lparr>internalRunning := True, lastHighActivityAt := t, internalController := Some False,
             cached := encode48 t, loops := loops s @ [t]\<rparr>)"
  by (simp add: startInternalLoop_def internalLoop_same Let_def)

lemma list_all_update: "list_all P xs \<Longrightarrow> P x \<Longrightarrow> list_all P (xs[k := x])"
  using set_update_subset_insert [of xs k x] by (auto simp: list_all_iff)

lemma worker_toBase64Url48_NumberV [simp]: "worker_toBase64Url48 (NumberV n) = Inr (encode48 n)"
  by (simp add: worker_toBase64Url48_eq)

lemma worker_step_closed:
  "worker_step t th =
     (if stopped th \<or> w_lastMs th = Some t then th
      else th\<lparr>w_lastMs := Some t, outbox := outbox th @ [JString (encode48 t)]\<rparr>)"
  by (simp add: worker_step_def worker_boot_def worker_iteration_def postMessage_def
      split: option.splits)

lemma markCall_frame [simp]:
  "cached (snd (markCall n s)) = cached s"
  "threads (snd (markCall n s)) = threads s"
  "loops (snd (markCall n s)) = loops s"
  "workerRunning (snd (markCall n s)) = workerRunning s"
  "internalRunning (snd (markCall n s)) = internalRunning s"
  "worker (snd (markCall n s)) = worker s"
  "workerCtor (snd (markCall n s)) = workerCtor s"
  "cfg (snd (markCall n s)) = cfg s"
  "internalController (snd (markCall n s)) = internalController s"
  "lastHighActivityAt (snd (markCall n s)) = lastHighActivityAt s"
  by (simp_all add: markCall_def Let_def)

lemma cache_ok_startInternalLoop: "cache_ok s \<Longrightarrow> cache_ok (startInternalLoop t s)"
  by (simp add: cache_ok_def startInternalLoop_closed)

lemma cache_ok_cong:
  "cache_ok s \<Longrightarrow> cached s' = cached s \<Longrightarrow> threads s' = threads s \<Longrightarrow> cache_ok s'"
  by (simp add: cache_ok_def)

lemma outboxes_nth:
  "list_all (\<lambda>th. list_all msg_ok (outbox th)) ts \<Longrightarrow> k < length ts \<Longrightarrow>
     list_all msg_ok (outbox (ts ! k))"
  by (simp add: list_all_length)

lemma outboxes_terminate:
  "list_all (\<lambda>th. list_all msg_ok (outbox th)) ts \<Longrightarrow>
     list_all (\<lambda>th. list_all msg_ok (outbox th)) (terminate k ts)"
  by (simp add: terminate_def list_all_update outboxes_nth)

lemma cache_ok_startWorker: "cache_ok s \<Longrightarrow> cache_ok (startWorker sp t s)"
proof -
  assume ok: "cache_ok s"
  then have 1: "cache_ok (s\<lparr>lastHighActivityAt := t\<rparr>)"
    by (rule cache_ok_cong) simp_all
  have 2: "cache_ok (s\<lparr>lastHighActivityAt := t, worker := Some (length (threads s)),
      threads := threads s @ [new_thread], workerRunning := True\<rparr>)"
    using ok by (simp add: cache_ok_def new_thread_def)
  show ?thesis
    using ok 1 2 cache_ok_startInternalLoop [OF ok, of t] cache_ok_startInternalLoop [OF 1, of t]
    by (simp add: startWorker_def Let_def)
qed

lemma cache_ok_requestPerf: "cache_ok s \<Longrightarrow> cache_ok (requestPerf sp t s)"
proof -
  assume "cache_ok s"
  then have "cache_ok (s\<lparr>lastHighActivityAt := t\<rparr>)"
    by (simp add: cache_ok_def)
  then show ?thesis
    by (simp add: requestPerf_def Let_def cache_ok_startInternalLoop cache_ok_startWorker)
qed

lemma cache_ok_markCall: "cache_ok s \<Longrightarrow> cache_ok (snd (markCall n s))"
  by (simp add: cache_ok_def)

lemma cache_ok_get: "cache_ok s \<Longrightarrow> cache_ok (snd (get sp t n s))"
proof -
  assume ok: "cache_ok s"
  then have 1: "cache_ok (s\<lparr>lastHighActivityAt := t\<rparr>)"
    by (simp add: cache_ok_def)
  obtain b s1 where m: "markCall n s = (b, s1)"
    by (cases "markCall n s")
  have 2: "cache_ok s1"
    using cache_ok_markCall [OF ok, of n] by (simp add: m)
  show ?thesis
    using cache_ok_markCall [OF 1, of n] 2 cache_ok_requestPerf [OF 2, of sp t]
    by (simp add: get_def Let_def m)
qed

lemma cache_ok_stopWorker: "cache_ok s \<Longrightarrow> cache_ok (stopWorker s)"
  by (simp add: cache_ok_def stopWorker_def outboxes_terminate split: option.splits)

lemma cache_ok_stop: "cache_ok s \<Longrightarrow> cache_ok (stop s)"
proof -
  assume "cache_ok s"
  then have "cache_ok (stopInternalLoop s)"
    by (rule cache_ok_cong) (simp_all add: stopInternalLoop_def)
  then show ?thesis
    by (simp add: stop_def cache_ok_stopWorker)
qed

lemma cache_ok_resumeLoop: "cache_ok s \<Longrightarrow> cache_ok (resumeLoop k t s)"
  by (simp add: cache_ok_def resumeLoop_def Let_def internalLoop_closed idleCheck_def
      split: option.splits)

lemma cache_ok_threads_update:
  "cache_ok s \<Longrightarrow> list_all msg_ok (outbox th) \<Longrightarrow> cache_ok (s\<lparr>threads := (threads s)[k := th]\<rparr>)"
  by (simp add: cache_ok_def list_all_update)

lemma cache_ok_step: "cache_ok s \<Longrightarrow> cache_ok (step e s)"
proof (cases e)
  case (Get sp t n)
  then show "cache_ok s \<Longrightarrow> ?thesis" by (simp add: cache_ok_get)
next
  case (Start mode sp t)
  then show "cache_ok s \<Longrightarrow> ?thesis"
    by (simp add: start_def cache_ok_startWorker cache_ok_startInternalLoop cache_ok_requestPerf)
next
  case Stop
  then show "cache_ok s \<Longrightarrow> ?thesis" by (simp add: cache_ok_stop)
next
  case (LoopResume k t)
  then show "cache_ok s \<Longrightarrow> ?thesis" by (simp add: cache_ok_resumeLoop)
next
  case (WorkerStep k t)
  assume ok: "cache_ok s"
  show ?thesis
  proof (cases "k < length (threads s)")
    case True
    then have "list_all msg_ok (outbox (threads s ! k))"
      using ok by (simp add: cache_ok_def list_all_length)
    then have "list_all msg_ok (outbox (worker_step t (threads s ! k)))"
      by (simp add: worker_step_closed)
    then show ?thesis
      using ok True WorkerStep by (simp add: cache_ok_threads_update)
  next
    case False
    then show ?thesis using ok WorkerStep by simp
  qed
next
  case (WorkerMessage k t)
  assume ok: "cache_ok s"
  show ?thesis
  proof (cases "k < length (threads s)")
    case True
    show ?thesis
    proof (cases "outbox (threads s ! k)")
      case Nil
      then show ?thesis using ok True WorkerMessage by simp
    next
      case (Cons msg rest)
      have "list_all msg_ok (outbox (threads s ! k))"
        using ok True by (simp add: cache_ok_def list_all_length)
      then have m: "msg_ok msg" "list_all msg_ok rest"
        by (simp_all add: Cons)
      have "cache_ok (s\<lparr>threads := (threads s)[k := (threads s ! k)\<lparr>outbox := rest\<rparr>]\<rparr>)"
        using ok m by (simp add: cache_ok_threads_update)
      then have "cache_ok (on_message msg t (s\<lparr>threads := (threads s)[k := (threads s ! k)\<lparr>outbox := rest\<rparr>]\<rparr>))"
        using m(1) by (cases msg) (simp_all add: on_message_def cache_ok_def)
      then show ?thesis
        using True WorkerMessage Cons by simp
    qed
  next
    case False
    then show ?thesis using ok WorkerMessage by simp
  qed
next
  case (WorkerError k t)
  assume ok: "cache_ok s"
  show ?thesis
  proof (cases "k < length (threads s)")
    case True
    have "list_all msg_ok (outbox (threads s ! k))"
      using ok True by (simp add: cache_ok_def list_all_length)
    then have "cache_ok (s\<lparr>threads := (threads s)[k := (threads s ! k)\<lparr>stopped := True\<rparr>]\<rparr>)"
      using ok by (simp add: cache_ok_threads_update)
    then show ?thesis
      using True WorkerError
      by (simp add: on_error_def cache_ok_startInternalLoop cache_ok_stopWorker)
  next
    case False
    then show ?thesis using ok WorkerError by simp
  qed
next
  case (WorkerExit k code t)
  assume ok: "cache_ok s"
  show ?thesis
  proof (cases "k < length (threads s)")
    case True
    have 1: "cache_ok (s\<lparr>threads := (threads s)[k := (threads s ! k)\<lparr>stopped := True, outbox := []\<rparr>]\<rparr>)"
      using ok by (simp add: cache_ok_threads_update)
    then have 2: "cache_ok (s\<lparr>threads := (threads s)[k := (threads s ! k)\<lparr>stopped := True, outbox := []\<rparr>],
        workerRunning := False, worker := None\<rparr>)"
      by (simp add: cache_ok_def)
    show ?thesis
      using True WorkerExit 2 cache_ok_startInternalLoop [OF 2, of t]
      by (simp add: on_exit_def Let_def)
  next
    case False
    then show ?thesis using ok WorkerExit by simp
  qed
qed

lemma cache_ok_run: "cache_ok s \<Longrightarrow> cache_ok (run es s)"
  by (induction es arbitrary: s) (simp_all add: cache_ok_step)

lemma get_result:
  "fst (get sp t n s) =
     (if workerRunning s \<or> internalRunning s then Inr (cached s) else Inr (encode48 t))"
  by (simp add: get_def Let_def basicGet_def split: prod.splits)

lemma cache_ok_init: "cache_ok (init_state wc c (encode48 t0) t0 n0)"
  by (simp add: cache_ok_def init_state_def)

text \<open>
  C3. \<open>get()\<close> is total. Take a generator as constructed, with any options, and let
  anything happen to it: calls of \<open>get\<close>, \<open>start\<close> and \<open>stop\<close>, failing worker
  construction, loop resumptions, worker steps, worker messages, errors and exits, in
  any order and with any clock readings. In the state reached, \<open>get()\<close> raises nothing
  and returns a string of 8 characters of the alphabet: the cache while a refresher is
  flagged running, and whenever none is, whatever has failed before, the value
  computed directly from the clock.
\<close>

theorem get_total:
  "\<exists>s0. createTSGen wc opts t0 n0 = Inr s0 \<and>
     (let s = run es s0
      in (\<exists>str. fst (get spawn_ok nowMs nowNano s) = Inr str \<and> length str = 8 \<and>
            set str \<subseteq> set ASCII_BASE64_ALPHA) \<and>
         (workerRunning s \<or> internalRunning s \<longrightarrow>
            fst (get spawn_ok nowMs nowNano s) = Inr (cached s)) \<and>
         (\<not> workerRunning s \<and> \<not> internalRunning s \<longrightarrow>
            fst (get spawn_ok nowMs nowNano s) = toBase64Url48 (NumberV nowMs)))"
proof -
  let ?s0 = "init_state wc (assign defaultOptions opts) (encode48 t0) t0 n0"
  have "cache_ok (run es ?s0)"
    by (intro cache_ok_run cache_ok_init)
  then have "valid_ts (cached (run es ?s0))"
    by (simp add: cache_ok_def)
  then show ?thesis
    using valid_ts_encode48 [of nowMs]
    by (simp add: createTSGen_Inr Let_def get_result valid_ts_def del: valid_ts_encode48)
qed

theorem get_total_witness:
  "\<exists>s0. createTSGen True
       \<lparr>opt_thresholdCalls = Some 1, opt_thresholdWindowUs = Some 0,
        opt_perfCooldownMs = None, opt_prefer = Some ''worker''\<rparr> 10 0 = Inr s0 \<and>
     internalRunning (run [Get False 10 1000] s0) \<and>
     fst (get True 12 2000 (run [Get False 10 1000] s0)) =
       Inr (cached (run [Get False 10 1000] s0)) \<and>
     \<not> workerRunning (run [Get False 10 1000, Stop] s0) \<and>
     \<not> internalRunning (run [Get False 10 1000, Stop] s0) \<and>
     fst (get True 12 2000 (run [Get False 10 1000, Stop] s0)) = toBase64Url48 (NumberV 12)"
proof -
  let ?opts = "\<lparr>opt_thresholdCalls = Some 1, opt_thresholdWindowUs = Some 0,
        opt_perfCooldownMs = None, opt_prefer = Some ''worker''\<rparr>"
  let ?s0 = "init_state True (assign defaultOptions ?opts) (encode48 10) 10 0"
  have h1: "internalRunning (run [Get False 10 1000] ?s0)"
    by code_simp
  have h2: "\<not> workerRunning (run [Get False 10 1000, Stop] ?s0) \<and>
      \<not> internalRunning (run [Get False 10 1000, Stop] ?s0)"
    by code_simp
  have "fst (get True 12 2000 (run [Get False 10 1000] ?s0)) =
      Inr (cached (run [Get False 10 1000] ?s0))"
    using get_total [of True ?opts 10 0 "[Get False 10 1000]" True 12 2000] h1
    by (simp add: createTSGen_Inr Let_def)
  moreover have "fst (get True 12 2000 (run [Get False 10 1000, Stop] ?s0)) =
      toBase64Url48 (NumberV 12)"
    using get_total [of True ?opts 10 0 "[Get False 10 1000, Stop]" True 12 2000] h2
    by (simp add: createTSGen_Inr Let_def)
  ultimately show ?thesis
    using h1 h2 by (simp add: createTSGen_Inr)
qed

lemma startInternalLoop_running [simp]:
  "internalRunning (startInternalLoop t s)"
  "workerRunning (startInternalLoop t s) = workerRunning s"
  "threads (startInternalLoop t s) = threads s"
  by (simp_all add: startInternalLoop_closed)

lemma startWorker_fallback:
  assumes "\<not> workerRunning s" "\<not> workerCtor s \<or> \<not> spawn_ok"
  shows "startWorker spawn_ok t s = startInternalLoop t s \<or>
         startWorker spawn_ok t s = startInternalLoop t (s\<lparr>lastHighActivityAt := t\<rparr>)"
  using assms by (auto simp: startWorker_def Let_def)

lemma requestPerf_fallback:
  assumes "\<not> workerRunning s" "\<not> workerCtor s \<or> \<not> spawn_ok" "prefer (cfg s) \<noteq> ''basic''"
  shows "requestPerf spawn_ok t s = startInternalLoop t (s\<lparr>lastHighActivityAt := t\<rparr>)"
  using assms by (auto simp: requestPerf_def startWorker_def Let_def)

lemma startInternalLoop_effect:
  "internalRunning (startInternalLoop t s) \<and>
   workerRunning (startInternalLoop t s) = workerRunning s \<and>
   worker (startInternalLoop t s) = worker s \<and>
   threads (startInternalLoop t s) = threads s \<and>
   (\<not> internalRunning s \<longrightarrow>
      cached (startInternalLoop t s) = encode48 t \<and>
      loops (startInternalLoop t s) = loops s @ [t] \<and>
      internalController (startInternalLoop t s) = Some False \<and>
      lastHighActivityAt (startInternalLoop t s) = t) \<and>
   (internalRunning s \<longrightarrow> startInternalLoop t s = s)"
  by (simp add: startInternalLoop_closed)

lemma on_error_effect:
  "internalRunning (on_error t s) \<and> \<not> workerRunning (on_error t s) \<and>
   worker (on_error t s) = None \<and>
   (\<not> internalRunning s \<longrightarrow>
      cached (on_error t s) = encode48 t \<and> loops (on_error t s) = loops s @ [t] \<and>
      internalController (on_error t s) = Some False) \<and>
   (internalRunning s \<longrightarrow>
      cached (on_error t s) = cached s \<and> loops (on_error t s) = loops s \<and>
      internalController (on_error t s) = internalController s)"
  by (simp add: on_error_def startInternalLoop_closed stopWorker_def)

lemma on_exit_effect:
  "code \<noteq> 0 \<Longrightarrow>
   internalRunning (on_exit code t s) \<and> \<not> workerRunning (on_exit code t s) \<and>
   worker (on_exit code t s) = None \<and>
   (\<not> internalRunning s \<longrightarrow>
      cached (on_exit code t s) = encode48 t \<and> loops (on_exit code t s) = loops s @ [t] \<and>
      internalController (on_exit code t s) = Some False) \<and>
   (internalRunning s \<longrightarrow>
      cached (on_exit code t s) = cached s \<and> loops (on_exit code t s) = loops s \<and>
      internalController (on_exit code t s) = internalController s)"
  by (simp add: on_exit_def Let_def startInternalLoop_closed)

lemma startWorker_fallback_effect:
  assumes "\<not> workerRunning s \<and> (\<not> workerCtor s \<or> \<not> spawn_ok)"
  shows "internalRunning (startWorker spawn_ok t s) \<and>
      \<not> workerRunning (startWorker spawn_ok t s) \<and>
      threads (startWorker spawn_ok t s) = threads s \<and>
      (\<not> internalRunning s \<longrightarrow>
         cached (startWorker spawn_ok t s) = encode48 t \<and>
         loops (startWorker spawn_ok t s) = loops s @ [t] \<and>
         internalController (startWorker spawn_ok t s) = Some False) \<and>
      (internalRunning s \<longrightarrow>
         cached (startWorker spawn_ok t s) = cached s \<and>
         loops (startWorker spawn_ok t s) = loops s)"
proof (cases "internalRunning s")
  case True
  then show ?thesis
    using assms by (simp add: startWorker_def Let_def startInternalLoop_closed)
next
  case False
  then show ?thesis
    using assms by (simp add: startWorker_def Let_def startInternalLoop_closed)
qed

text \<open>
  C6. Falling back from the worker to the internal loop. In each of the cases:
  \<open>startWorker\<close> with no worker running finds no worker constructor, or the
  constructor throws; a worker raises its \<open>error\<close> event; a worker exits with a
  non-zero code; the controller starts the internal loop and ends with the loop
  flagged running and the worker not. Starting the loop means: if no loop was flagged
  running, the cache is seeded with the encoding of the current millisecond, a fresh
  controller object is in place and a loop body is scheduled; if one was already
  running it is left as it is. After the \<open>error\<close> and \<open>exit\<close> events the variable
  \<open>worker\<close> is null, and a failed start creates no worker thread. A call of \<open>get()\<close>
  that triggers a failed start still returns the directly computed value, after which
  the loop is running, the cache seeded and a body scheduled; and \<open>get()\<close> never
  raises, in any state.
\<close>

theorem worker_fallback:
  "(\<not> workerRunning s \<and> (\<not> workerCtor s \<or> \<not> spawn_ok) \<longrightarrow>
      internalRunning (startWorker spawn_ok nowMs s) \<and>
      \<not> workerRunning (startWorker spawn_ok nowMs s) \<and>
      threads (startWorker spawn_ok nowMs s) = threads s \<and>
      (\<not> internalRunning s \<longrightarrow>
         cached (startWorker spawn_ok nowMs s) = encode48 nowMs \<and>
         loops (startWorker spawn_ok nowMs s) = loops s @ [nowMs] \<and>
         internalController (startWorker spawn_ok nowMs s) = Some False) \<and>
      (internalRunning s \<longrightarrow>
         cached (startWorker spawn_ok nowMs s) = cached s \<and>
         loops (startWorker spawn_ok nowMs s) = loops s)) \<and>
   (k < length (threads s) \<longrightarrow>
      internalRunning (step (WorkerError k nowMs) s) \<and>
      \<not> workerRunning (step (WorkerError k nowMs) s) \<and>
      worker (step (WorkerError k nowMs) s) = None \<and>
      (\<not> internalRunning s \<longrightarrow>
         cached (step (WorkerError k nowMs) s) = encode48 nowMs \<and>
         loops (step (WorkerError k nowMs) s) = loops s @ [nowMs] \<and>
         internalController (step (WorkerError k nowMs) s) = Some False) \<and>
      (internalRunning s \<longrightarrow>
         cached (step (WorkerError k nowMs) s) = cached s \<and>
         loops (step (WorkerError k nowMs) s) = loops s)) \<and>
   (k < length (threads s) \<and> code \<noteq> 0 \<longrightarrow>
      internalRunning (step (WorkerExit k code nowMs) s) \<and>
      \<not> workerRunning (step (WorkerExit k code nowMs) s) \<and>
      worker (step (WorkerExit k code nowMs) s) = None \<and>
      (\<not> internalRunning s \<longrightarrow>
         cached (step (WorkerExit k code nowMs) s) = encode48 nowMs \<and>
         loops (step (WorkerExit k code nowMs) s) = loops s @ [nowMs] \<and>
         internalController (step (WorkerExit k code nowMs) s) = Some False) \<and>
      (internalRunning s \<longrightarrow>
         cached (step (WorkerExit k code nowMs) s) = cached s \<and>
         loops (step (WorkerExit k code nowMs) s) = loops s)) \<and>
   (\<not> workerRunning s \<and> \<not> internalRunning s \<and> (\<not> workerCtor s \<or> \<not> spawn_ok) \<and>
    prefer (cfg s) \<noteq> ''basic'' \<and> fst (markCall nowNano s) \<longrightarrow>
      fst (get spawn_ok nowMs nowNano s) = Inr (encode48 nowMs) \<and>
      internalRunning (snd (get spawn_ok nowMs nowNano s)) \<and>
      \<not> workerRunning (snd (get spawn_ok nowMs nowNano s)) \<and>
      cached (snd (get spawn_ok nowMs nowNano s)) = encode48 nowMs \<and>
      loops (snd (get spawn_ok nowMs nowNano s)) = loops s @ [nowMs]) \<and>
   (\<exists>str. fst (get spawn_ok' nowMs' nowNano' s') = Inr str)"
proof (intro conjI)
  show "\<not> workerRunning s \<and> (\<not> workerCtor s \<or> \<not> spawn_ok) \<longrightarrow>
      internalRunning (startWorker spawn_ok nowMs s) \<and>
      \<not> workerRunning (startWorker spawn_ok nowMs s) \<and>
      threads (startWorker spawn_ok nowMs s) = threads s \<and>
      (\<not> internalRunning s \<longrightarrow>
         cached (startWorker spawn_ok nowMs s) = encode48 nowMs \<and>
         loops (startWorker spawn_ok nowMs s) = loops s @ [nowMs] \<and>
         internalController (startWorker spawn_ok nowMs s) = Some False) \<and>
      (internalRunning s \<longrightarrow>
         cached (startWorker spawn_ok nowMs s) = cached s \<and>
         loops (startWorker spawn_ok nowMs s) = loops s)"
  proof
    assume a: "\<not> workerRunning s \<and> (\<not> workerCtor s \<or> \<not> spawn_ok)"
    then show "internalRunning (startWorker spawn_ok nowMs s) \<and>
      \<not> workerRunning (startWorker spawn_ok nowMs s) \<and>
      threads (startWorker spawn_ok nowMs s) = threads s \<and>
      (\<not> internalRunning s \<longrightarrow>
         cached (startWorker spawn_ok nowMs s) = encode48 nowMs \<and>
         loops (startWorker spawn_ok nowMs s) = loops s @ [nowMs] \<and>
         internalController (startWorker spawn_ok nowMs s) = Some False) \<and>
      (internalRunning s \<longrightarrow>
         cached (startWorker spawn_ok nowMs s) = cached s \<and>
         loops (startWorker spawn_ok nowMs s) = loops s)"
      by (rule startWorker_fallback_effect)
  qed
next
  let ?s1 = "s\<lparr>threads := (threads s)[k := (threads s ! k)\<lparr>stopped := True\<rparr>]\<rparr>"
  show "k < length (threads s) \<longrightarrow>
      internalRunning (step (WorkerError k nowMs) s) \<and>
      \<not> workerRunning (step (WorkerError k nowMs) s) \<and>
      worker (step (WorkerError k nowMs) s) = None \<and>
      (\<not> internalRunning s \<longrightarrow>
         cached (step (WorkerError k nowMs) s) = encode48 nowMs \<and>
         loops (step (WorkerError k nowMs) s) = loops s @ [nowMs] \<and>
         internalController (step (WorkerError k nowMs) s) = Some False) \<and>
      (internalRunning s \<longrightarrow>
         cached (step (WorkerError k nowMs) s) = cached s \<and>
         loops (step (WorkerError k nowMs) s) = loops s)"
    using on_error_effect [of nowMs ?s1] by simp
next
  let ?s1 = "s\<lparr>threads := (threads s)[k := (threads s ! k)\<lparr>stopped := True, outbox := []\<rparr>]\<rparr>"
  show "k < length (threads s) \<and> code \<noteq> 0 \<longrightarrow>
      internalRunning (step (WorkerExit k code nowMs) s) \<and>
      \<not> workerRunning (step (WorkerExit k code nowMs) s) \<and>
      worker (step (WorkerExit k code nowMs) s) = None \<and>
      (\<not> internalRunning s \<longrightarrow>
         cached (step (WorkerExit k code nowMs) s) = encode48 nowMs \<and>
         loops (step (WorkerExit k code nowMs) s) = loops s @ [nowMs] \<and>
         internalController (step (WorkerExit k code nowMs) s) = Some False) \<and>
      (internalRunning s \<longrightarrow>
         cached (step (WorkerExit k code nowMs) s) = cached s \<and>
         loops (step (WorkerExit k code nowMs) s) = loops s)"
    using on_exit_effect [of code nowMs ?s1] by simp
next
  show "\<not> workerRunning s \<and> \<not> internalRunning s \<and> (\<not> workerCtor s \<or> \<not> spawn_ok) \<and>
    prefer (cfg s) \<noteq> ''basic'' \<and> fst (markCall nowNano s) \<longrightarrow>
      fst (get spawn_ok nowMs nowNano s) = Inr (encode48 nowMs) \<and>
      internalRunning (snd (get spawn_ok nowMs nowNano s)) \<and>
      \<not> workerRunning (snd (get spawn_ok nowMs nowNano s)) \<and>
      cached (snd (get spawn_ok nowMs nowNano s)) = encode48 nowMs \<and>
      loops (snd (get spawn_ok nowMs nowNano s)) = loops s @ [nowMs]"
  proof
    assume a: "\<not> workerRunning s \<and> \<not> internalRunning s \<and> (\<not> workerCtor s \<or> \<not> spawn_ok) \<and>
      prefer (cfg s) \<noteq> ''basic'' \<and> fst (markCall nowNano s)"
    obtain s1 where m: "markCall nowNano s = (True, s1)"
      using a by (cases "markCall nowNano s") auto
    have s1: "s1 = snd (markCall nowNano s)"
      by (simp add: m)
    have "requestPerf spawn_ok nowMs s1 = startInternalLoop nowMs (s1\<lparr>lastHighActivityAt := nowMs\<rparr>)"
      using a by (intro requestPerf_fallback) (simp_all add: s1)
    then have g: "snd (get spawn_ok nowMs nowNano s) =
        startInternalLoop nowMs (s1\<lparr>lastHighActivityAt := nowMs\<rparr>)"
      using a by (simp add: get_def m)
    have "fst (get spawn_ok nowMs nowNano s) = Inr (encode48 nowMs)"
      using a by (simp add: get_result)
    moreover have "internalRunning (snd (get spawn_ok nowMs nowNano s))"
      and "\<not> workerRunning (snd (get spawn_ok nowMs nowNano s))"
      using a by (simp_all add: g s1)
    moreover have "cached (snd (get spawn_ok nowMs nowNano s)) = encode48 nowMs"
      and "loops (snd (get spawn_ok nowMs nowNano s)) = loops s @ [nowMs]"
      using a by (simp_all add: g s1 startInternalLoop_closed)
    ultimately show "fst (get spawn_ok nowMs nowNano s) = Inr (encode48 nowMs) \<and>
      internalRunning (snd (get spawn_ok nowMs nowNano s)) \<and>
      \<not> workerRunning (snd (get spawn_ok nowMs nowNano s)) \<and>
      cached (snd (get spawn_ok nowMs nowNano s)) = encode48 nowMs \<and>
      loops (snd (get spawn_ok nowMs nowNano s)) = loops s @ [nowMs]"
      by blast
  qed
next
  show "\<exists>str. fst (get spawn_ok' nowMs' nowNano' s') = Inr str"
    by (simp add: get_result)
qed

theorem worker_fallback_witness:
  "\<not> workerRunning
       (init_state True (defaultOptions\<lparr>thresholdCalls := 1, thresholdWindowUs := 0\<rparr>)
          (encode48 10) 10 0) \<and>
   \<not> internalRunning
       (init_state True (defaultOptions\<lparr>thresholdCalls := 1, thresholdWindowUs := 0\<rparr>)
          (encode48 10) 10 0) \<and>
   prefer (cfg
       (init_state True (defaultOptions\<lparr>thresholdCalls := 1, thresholdWindowUs := 0\<rparr>)
          (encode48 10) 10 0)) \<noteq> ''basic'' \<and>
   fst (markCall 5000
       (init_state True (defaultOptions\<lparr>thresholdCalls := 1, thresholdWindowUs := 0\<rparr>)
          (encode48 10) 10 0)) \<and>
   internalRunning (startWorker False 12
       (init_state True (defaultOptions\<lparr>thresholdCalls := 1, thresholdWindowUs := 0\<rparr>)
          (encode48 10) 10 0)) \<and>
   cached (startWorker False 12
       (init_state True (defaultOptions\<lparr>thresholdCalls := 1, thresholdWindowUs := 0\<rparr>)
          (encode48 10) 10 0)) = encode48 12 \<and>
   loops (startWorker False 12
       (init_state True (defaultOptions\<lparr>thresholdCalls := 1, thresholdWindowUs := 0\<rparr>)
          (encode48 10) 10 0)) = [] @ [12] \<and>
   fst (get False 12 5000
       (init_state True (defaultOptions\<lparr>thresholdCalls := 1, thresholdWindowUs := 0\<rparr>)
          (encode48 10) 10 0)) = Inr (encode48 12) \<and>
   internalRunning (snd (get False 12 5000
       (init_state True (defaultOptions\<lparr>thresholdCalls := 1, thresholdWindowUs := 0\<rparr>)
          (encode48 10) 10 0))) \<and>
   loops (snd (get False 12 5000
       (init_state True (defaultOptions\<lparr>thresholdCalls := 1, thresholdWindowUs := 0\<rparr>)
          (encode48 10) 10 0))) = [] @ [12] \<and>
   workerRunning (run [Start (Some ''worker'') True 10, WorkerStep 0 10]
       (init_state True defaultOptions (encode48 10) 10 0)) \<and>
   worker (run [Start (Some ''worker'') True 10, WorkerStep 0 10]
       (init_state True defaultOptions (encode48 10) 10 0)) = Some 0 \<and>
   \<not> stopped (threads (run [Start (Some ''worker'') True 10, WorkerStep 0 10]
       (init_state True defaultOptions (encode48 10) 10 0)) ! 0) \<and>
   \<not> internalRunning (run [Start (Some ''worker'') True 10, WorkerStep 0 10]
       (init_state True defaultOptions (encode48 10) 10 0)) \<and>
   0 < length (threads (run [Start (Some ''worker'') True 10, WorkerStep 0 10]
       (init_state True defaultOptions (encode48 10) 10 0))) \<and>
   (1::int) \<noteq> 0 \<and>
   internalRunning (step (WorkerError 0 12) (run [Start (Some ''worker'') True 10, WorkerStep 0 10]
       (init_state True defaultOptions (encode48 10) 10 0))) \<and>
   \<not> workerRunning (step (WorkerError 0 12)
       (run [Start (Some ''worker'') True 10, WorkerStep 0 10]
          (init_state True defaultOptions (encode48 10) 10 0))) \<and>
   cached (step (WorkerError 0 12) (run [Start (Some ''worker'') True 10, WorkerStep 0 10]
       (init_state True defaultOptions (encode48 10) 10 0))) = encode48 12 \<and>
   loops (step (WorkerError 0 12) (run [Start (Some ''worker'') True 10, WorkerStep 0 10]
       (init_state True defaultOptions (encode48 10) 10 0))) = [] @ [12] \<and>
   internalRunning (step (WorkerExit 0 1 12)
       (run [Start (Some ''worker'') True 10, WorkerStep 0 10]
          (init_state True defaultOptions (encode48 10) 10 0))) \<and>
   \<not> workerRunning (step (WorkerExit 0 1 12)
       (run [Start (Some ''worker'') True 10, WorkerStep 0 10]
          (init_state True defaultOptions (encode48 10) 10 0))) \<and>
   cached (step (WorkerExit 0 1 12) (run [Start (Some ''worker'') True 10, WorkerStep 0 10]
       (init_state True defaultOptions (encode48 10) 10 0))) = encode48 12 \<and>
   loops (step (WorkerExit 0 1 12) (run [Start (Some ''worker'') True 10, WorkerStep 0 10]
       (init_state True defaultOptions (encode48 10) 10 0))) = [] @ [12]"
proof -
  let ?a = "init_state True (defaultOptions\<lparr>thresholdCalls := 1, thresholdWindowUs := 0\<rparr>)
          (encode48 10) 10 0"
  let ?b = "run [Start (Some ''worker'') True 10, WorkerStep 0 10]
       (init_state True defaultOptions (encode48 10) 10 0)"
  have ha': "\<not> workerRunning ?a \<and> \<not> internalRunning ?a \<and> prefer (cfg ?a) \<noteq> ''basic'' \<and>
      fst (markCall 5000 ?a) \<and> loops ?a = []"
    by code_simp
  have hb: "workerRunning ?b \<and> worker ?b = Some 0 \<and> \<not> stopped (threads ?b ! 0) \<and>
      \<not> internalRunning ?b \<and> 0 < length (threads ?b) \<and> loops ?b = []"
    by code_simp
  note ta = worker_fallback [of ?a False 12 0 1 5000]
  note tb = worker_fallback [of ?b True 12 0 1 5000]
  have ca: "internalRunning (startWorker False 12 ?a) \<and>
      cached (startWorker False 12 ?a) = encode48 12 \<and>
      loops (startWorker False 12 ?a) = [] @ [12] \<and>
      fst (get False 12 5000 ?a) = Inr (encode48 12) \<and>
      internalRunning (snd (get False 12 5000 ?a)) \<and>
      loops (snd (get False 12 5000 ?a)) = [] @ [12]"
    using ta ha' by force
  have cb: "internalRunning (step (WorkerError 0 12) ?b) \<and>
      \<not> workerRunning (step (WorkerError 0 12) ?b) \<and>
      cached (step (WorkerError 0 12) ?b) = encode48 12 \<and>
      loops (step (WorkerError 0 12) ?b) = [] @ [12] \<and>
      internalRunning (step (WorkerExit 0 1 12) ?b) \<and>
      \<not> workerRunning (step (WorkerExit 0 1 12) ?b) \<and>
      cached (step (WorkerExit 0 1 12) ?b) = encode48 12 \<and>
      loops (step (WorkerExit 0 1 12) ?b) = [] @ [12]"
    using tb hb by force
  show ?thesis
    using ha' hb ca cb by simp
qed

lemma stop_flags:
  "\<not> internalRunning (stop s) \<and> \<not> workerRunning (stop s) \<and> worker (stop s) = None \<and>
   cached (stop s) = cached s \<and> loops (stop s) = loops s"
  by (simp add: stop_def stopWorker_def stopInternalLoop_def)

lemma resume_after_stop:
  assumes "k < length (loops s)"
  shows "cached (resumeLoop k nowMs (stop s)) = cached s \<and>
         \<not> internalRunning (resumeLoop k nowMs (stop s)) \<and>
         loops (resumeLoop k nowMs (stop s)) = take k (loops s) @ drop (Suc k) (loops s)"
  using assms
  by (simp add: resumeLoop_def Let_def internalLoop_closed idleCheck_def stop_def
      stopWorker_def stopInternalLoop_def split: option.splits)

lemma stop_idempotent: "stop (stop s) = stop s"
  by (simp add: stop_def stopWorker_def stopInternalLoop_def option.map_comp comp_def)

text \<open>
  C8 at a failing input. A generator with a running worker is stopped: right after
  \<open>stop()\<close> no refresher is flagged, nothing is scheduled and the cache is as it was.
  The terminated worker then emits its \<open>exit\<close> event; a worker that has come online and
  is terminated exits with code 1, which the \<open>exit\<close> handler takes for a failure: it
  starts the internal loop, so that after \<open>stop()\<close> has returned the cache is written
  again, a loop body is scheduled and the controller is promoted. The outcome is the
  same whether or not the worker has run its script before it is stopped.
\<close>

theorem stop_then_worker_exit:
  "\<not> internalRunning (run [Start (Some ''worker'') True 10, Stop]
       (init_state True defaultOptions (encode48 10) 10 0)) \<and>
   \<not> workerRunning (run [Start (Some ''worker'') True 10, Stop]
       (init_state True defaultOptions (encode48 10) 10 0)) \<and>
   loops (run [Start (Some ''worker'') True 10, Stop]
       (init_state True defaultOptions (encode48 10) 10 0)) = [] \<and>
   cached (run [Start (Some ''worker'') True 10, Stop]
       (init_state True defaultOptions (encode48 10) 10 0)) = encode48 10 \<and>
   internalRunning (run [Start (Some ''worker'') True 10, Stop, WorkerExit 0 1 11]
       (init_state True defaultOptions (encode48 10) 10 0)) \<and>
   loops (run [Start (Some ''worker'') True 10, Stop, WorkerExit 0 1 11]
       (init_state True defaultOptions (encode48 10) 10 0)) = [11] \<and>
   cached (run [Start (Some ''worker'') True 10, Stop, WorkerExit 0 1 11]
       (init_state True defaultOptions (encode48 10) 10 0)) = encode48 11 \<and>
   encode48 11 \<noteq> encode48 10 \<and>
   workerRunning (run [Start (Some ''worker'') True 10, WorkerStep 0 10, WorkerMessage 0 10]
       (init_state True defaultOptions (encode48 10) 10 0)) \<and>
   \<not> internalRunning
       (run [Start (Some ''worker'') True 10, WorkerStep 0 10, WorkerMessage 0 10, Stop]
       (init_state True defaultOptions (encode48 10) 10 0)) \<and>
   \<not> workerRunning
       (run [Start (Some ''worker'') True 10, WorkerStep 0 10, WorkerMessage 0 10, Stop]
       (init_state True defaultOptions (encode48 10) 10 0)) \<and>
   loops (run [Start (Some ''worker'') True 10, WorkerStep 0 10, WorkerMessage 0 10, Stop]
       (init_state True defaultOptions (encode48 10) 10 0)) = [] \<and>
   cached (run [Start (Some ''worker'') True 10, WorkerStep 0 10, WorkerMessage 0 10, Stop]
       (init_state True defaultOptions (encode48 10) 10 0)) = encode48 10 \<and>
   internalRunning
       (run [Start (Some ''worker'') True 10, WorkerStep 0 10, WorkerMessage 0 10, Stop,
             WorkerExit 0 1 11]
       (init_state True defaultOptions (encode48 10) 10 0)) \<and>
   loops (run [Start (Some ''worker'') True 10, WorkerStep 0 10, WorkerMessage 0 10, Stop,
             WorkerExit 0 1 11]
       (init_state True defaultOptions (encode48 10) 10 0)) = [11] \<and>
   cached (run [Start (Some ''worker'') True 10, WorkerStep 0 10, WorkerMessage 0 10, Stop,
             WorkerExit 0 1 11]
       (init_state True defaultOptions (encode48 10) 10 0)) = encode48 11"
  by code_simp

section \<open>Order of the cached values\<close>

lemma encode48_mono: "0 \<le> a \<Longrightarrow> a \<le> b \<Longrightarrow> b < 2 ^ 48 \<Longrightarrow> encode48 a \<le> encode48 b"
  using encode48_less [of a b] by (cases "a = b") (simp_all add: less_imp_le)

lemma cached_startInternalLoop:
  "cached (startInternalLoop t s) = cached s \<or> cached (startInternalLoop t s) = encode48 t"
  by (simp add: startInternalLoop_closed)

lemma cached_startWorker:
  "cached (startWorker sp t s) = cached s \<or> cached (startWorker sp t s) = encode48 t"
  using cached_startInternalLoop [of t s] cached_startInternalLoop [of t "s\<lparr>lastHighActivityAt := t\<rparr>"]
  by (auto simp: startWorker_def Let_def)

lemma cached_requestPerf:
  "cached (requestPerf sp t s) = cached s \<or> cached (requestPerf sp t s) = encode48 t"
  using cached_startInternalLoop [of t "s\<lparr>lastHighActivityAt := t\<rparr>"]
    cached_startWorker [of sp t "s\<lparr>lastHighActivityAt := t\<rparr>"]
  by (auto simp: requestPerf_def Let_def)

lemma cached_get:
  "cached (snd (get sp t n s)) = cached s \<or> cached (snd (get sp t n s)) = encode48 t"
proof -
  obtain b s1 where m: "markCall n s = (b, s1)"
    by (cases "markCall n s")
  have "cached s1 = cached s"
    using markCall_frame(1) [of n s] by (simp add: m)
  then show ?thesis
    using cached_requestPerf [of sp t s1] by (auto simp: get_def Let_def m)
qed

lemma cached_start:
  "cached (start mode sp t s) = cached s \<or> cached (start mode sp t s) = encode48 t"
  using cached_startWorker [of sp t s] cached_startInternalLoop [of t s] cached_requestPerf [of sp t s]
  by (auto simp: start_def)

lemma cached_stop [simp]: "cached (stop s) = cached s"
  by (simp add: stop_def stopWorker_def stopInternalLoop_def)

lemma cached_resumeLoop:
  "cached (resumeLoop k t s) = cached s \<or> cached (resumeLoop k t s) = encode48 t"
  by (simp add: resumeLoop_def Let_def internalLoop_closed idleCheck_def split: option.splits)

lemma cached_on_error:
  "cached (on_error t s) = cached s \<or> cached (on_error t s) = encode48 t"
  using cached_startInternalLoop [of t "stopWorker s"]
  by (simp add: on_error_def stopWorker_def)

lemma cached_on_exit:
  "cached (on_exit code t s) = cached s \<or> cached (on_exit code t s) = encode48 t"
  using cached_startInternalLoop [of t "s\<lparr>workerRunning := False, worker := None\<rparr>"]
  by (simp add: on_exit_def Let_def)

lemma cached_step:
  assumes "no_delivery e"
  shows "cached (step e s) = cached s \<or> (\<exists>t \<in> set (event_ms e). cached (step e s) = encode48 t)"
proof (cases e)
  case (Get sp t n)
  then show ?thesis using cached_get [of sp t n s] by auto
next
  case (Start mode sp t)
  then show ?thesis using cached_start [of mode sp t s] by auto
next
  case Stop
  then show ?thesis by simp
next
  case (LoopResume k t)
  then show ?thesis using cached_resumeLoop [of k t s] by auto
next
  case (WorkerStep k t)
  then show ?thesis by simp
next
  case (WorkerMessage k t)
  then show ?thesis using assms by simp
next
  case (WorkerError k t)
  then show ?thesis
    using cached_on_error [of t "s\<lparr>threads := (threads s)[k := (threads s ! k)\<lparr>stopped := True\<rparr>]\<rparr>"]
    by auto
next
  case (WorkerExit k code t)
  then show ?thesis
    using cached_on_exit [of code t
        "s\<lparr>threads := (threads s)[k := (threads s ! k)\<lparr>stopped := True, outbox := []\<rparr>]\<rparr>"]
    by auto
qed

lemma promoted_gets_Cons:
  "promoted_gets (e # es) s = promoted_gets es (step e s) \<or>
   promoted_gets (e # es) s = cached s # promoted_gets es (step e s)"
proof (cases e)
  case (Get sp t n)
  show ?thesis
    unfolding Get by (cases "workerRunning s \<or> internalRunning s") (simp_all add: get_result)
qed simp_all

lemma promoted_gets_Cons_sorted:
  assumes "sorted (promoted_gets es (step e s))"
    and "\<forall>x \<in> set (promoted_gets es (step e s)). cached s \<le> x"
  shows "sorted (promoted_gets (e # es) s)"
  using assms promoted_gets_Cons [of e es s] by auto

lemma promoted_gets_Cons_bound:
  assumes "\<forall>x \<in> set (promoted_gets es (step e s)). b \<le> x" and "b \<le> cached s"
  shows "\<forall>x \<in> set (promoted_gets (e # es) s). b \<le> x"
  using assms promoted_gets_Cons [of e es s] by auto

lemma loops_only_nondecreasing:
  assumes "cached s = encode48 c" "0 \<le> c" "sorted (c # clock es)"
    "\<forall>t \<in> set (clock es). t < 2 ^ 48" "list_all no_delivery es"
  shows "sorted (cache_history es s) \<and> (\<forall>x \<in> set (cache_history es s). encode48 c \<le> x) \<and>
         sorted (promoted_gets es s) \<and> (\<forall>x \<in> set (promoted_gets es s). encode48 c \<le> x)"
  using assms
proof (induction es arbitrary: s c)
  case Nil
  then show ?case by simp
next
  case (Cons e es)
  have nd: "no_delivery e" and nds: "list_all no_delivery es"
    using Cons.prems(5) by simp_all
  have cl: "clock (e # es) = event_ms e @ clock es"
    by (simp add: clock_def)
  have bound: "\<forall>t \<in> set (clock es). t < 2 ^ 48"
    using Cons.prems(4) by (simp add: cl)
  obtain c' where c': "cached (step e s) = encode48 c'" "c \<le> c'" "sorted (c' # clock es)"
    "c' = c \<or> c' < 2 ^ 48"
  proof (cases "cached (step e s) = cached s")
    case True
    have "sorted (c # clock es)"
      using Cons.prems(3) by (simp add: cl sorted_append)
    then show ?thesis
      using True Cons.prems(1) that [of c] by simp
  next
    case False
    then obtain t where t: "t \<in> set (event_ms e)" "cached (step e s) = encode48 t"
      using cached_step [OF nd, of s] by auto
    have "c \<le> t" "sorted (t # clock es)"
      using Cons.prems(3) t(1) by (auto simp: cl sorted_append)
    moreover have "t < 2 ^ 48"
      using Cons.prems(4) t(1) by (simp add: cl)
    ultimately show ?thesis
      using t(2) that [of t] by simp
  qed
  have c'0: "0 \<le> c'"
    using Cons.prems(2) c'(2) by simp
  note IH = Cons.IH [OF c'(1) c'0 c'(3) bound nds]
  have le: "encode48 c \<le> encode48 c'"
    using c'(4) encode48_mono [of c c'] Cons.prems(2) c'(2) by auto
  have hist: "\<forall>x \<in> set (cache_history es (step e s)). encode48 c \<le> x"
    using IH le by (meson order_trans)
  have gets: "\<forall>x \<in> set (promoted_gets es (step e s)). encode48 c \<le> x"
    using IH le by (meson order_trans)
  have "sorted (cache_history (e # es) s)"
    using IH hist by (simp add: Cons.prems(1))
  moreover have "\<forall>x \<in> set (cache_history (e # es) s). encode48 c \<le> x"
    using hist by (simp add: Cons.prems(1))
  moreover have "sorted (promoted_gets (e # es) s)"
    using IH gets by (intro promoted_gets_Cons_sorted) (simp_all add: Cons.prems(1))
  moreover have "\<forall>x \<in> set (promoted_gets (e # es) s). encode48 c \<le> x"
    using gets by (rule promoted_gets_Cons_bound) (simp add: Cons.prems(1))
  ultimately show ?case by blast
qed

lemma get_promoted_state:
  assumes "workerRunning s"
  shows "workerRunning (snd (get sp t n s))" "threads (snd (get sp t n s)) = threads s"
    "cached (snd (get sp t n s)) = cached s"
  using assms by (simp_all add: get_def Let_def)

lemma worker_only_step:
  assumes run: "workerRunning s" and k: "k < length (threads s)"
    and c: "cached s = encode48 c"
    and ob: "outbox (threads s ! k) = map (\<lambda>m. JString (encode48 m)) ms"
    and srt: "sorted (c # ms)"
    and e: "worker_only k e"
    and ev: "\<forall>t \<in> set (event_ms e). \<forall>m \<in> set (c # ms). m \<le> t"
  shows "\<exists>c' ms'. workerRunning (step e s) \<and> k < length (threads (step e s)) \<and>
           cached (step e s) = encode48 c' \<and>
           outbox (threads (step e s) ! k) = map (\<lambda>m. JString (encode48 m)) ms' \<and>
           (\<forall>x \<in> set (c' # ms'). x \<in> set (c # ms) \<or> x \<in> set (event_ms e)) \<and>
           sorted (c' # ms') \<and> c \<le> c'"
proof (cases e)
  case (Get sp t n)
  have "workerRunning (step e s) \<and> k < length (threads (step e s)) \<and>
           cached (step e s) = encode48 c \<and>
           outbox (threads (step e s) ! k) = map (\<lambda>m. JString (encode48 m)) ms \<and>
           (\<forall>x \<in> set (c # ms). x \<in> set (c # ms) \<or> x \<in> set (event_ms e)) \<and>
           sorted (c # ms) \<and> c \<le> c"
    using run k c ob srt by (simp add: Get get_promoted_state)
  then show ?thesis by blast
next
  case (WorkerStep j t)
  with e have j: "j = k" by simp
  let ?th = "threads s ! k"
  show ?thesis
  proof (cases "stopped ?th \<or> w_lastMs ?th = Some t")
    case True
    then have "step e s = s\<lparr>threads := (threads s)[k := ?th]\<rparr>"
      using k by (simp add: WorkerStep j worker_step_closed)
    then have "workerRunning (step e s) \<and> k < length (threads (step e s)) \<and>
           cached (step e s) = encode48 c \<and>
           outbox (threads (step e s) ! k) = map (\<lambda>m. JString (encode48 m)) ms \<and>
           (\<forall>x \<in> set (c # ms). x \<in> set (c # ms) \<or> x \<in> set (event_ms e)) \<and>
           sorted (c # ms) \<and> c \<le> c"
      using run k c ob srt by auto
    then show ?thesis by blast
  next
    case False
    then have st: "step e s = s\<lparr>threads := (threads s)[k :=
        ?th\<lparr>w_lastMs := Some t, outbox := outbox ?th @ [JString (encode48 t)]\<rparr>]\<rparr>"
      using k by (simp add: WorkerStep j worker_step_closed)
    have "\<forall>m \<in> set (c # ms). m \<le> t"
      using ev by (simp add: WorkerStep)
    then have "sorted (c # ms @ [t])"
      using srt by (simp add: sorted_append)
    then have "workerRunning (step e s) \<and> k < length (threads (step e s)) \<and>
           cached (step e s) = encode48 c \<and>
           outbox (threads (step e s) ! k) = map (\<lambda>m. JString (encode48 m)) (ms @ [t]) \<and>
           (\<forall>x \<in> set (c # ms @ [t]). x \<in> set (c # ms) \<or> x \<in> set (event_ms e)) \<and>
           sorted (c # ms @ [t]) \<and> c \<le> c"
      unfolding st using run k c ob by (auto simp: WorkerStep)
    then show ?thesis by blast
  qed
next
  case (WorkerMessage j t)
  with e have j: "j = k" by simp
  show ?thesis
  proof (cases ms)
    case Nil
    then have "step e s = s"
      using k ob by (simp add: WorkerMessage j)
    then have "workerRunning (step e s) \<and> k < length (threads (step e s)) \<and>
           cached (step e s) = encode48 c \<and>
           outbox (threads (step e s) ! k) = map (\<lambda>m. JString (encode48 m)) ms \<and>
           (\<forall>x \<in> set (c # ms). x \<in> set (c # ms) \<or> x \<in> set (event_ms e)) \<and>
           sorted (c # ms) \<and> c \<le> c"
      using run k c ob srt by auto
    then show ?thesis by blast
  next
    case (Cons m rest)
    then have st: "step e s =
        on_message (JString (encode48 m)) t
          (s\<lparr>threads := (threads s)[k := (threads s ! k)\<lparr>outbox := map (\<lambda>m. JString (encode48 m)) rest\<rparr>]\<rparr>)"
      using k ob by (simp add: WorkerMessage j)
    have "workerRunning (step e s) \<and> k < length (threads (step e s)) \<and>
           cached (step e s) = encode48 m \<and>
           outbox (threads (step e s) ! k) = map (\<lambda>m. JString (encode48 m)) rest \<and>
           (\<forall>x \<in> set (m # rest). x \<in> set (c # ms) \<or> x \<in> set (event_ms e)) \<and>
           sorted (m # rest) \<and> c \<le> m"
      unfolding st using run k srt by (auto simp: on_message_def Cons)
    then show ?thesis by blast
  qed
qed (use e in simp_all)

lemma worker_only_nondecreasing:
  assumes "workerRunning s" "k < length (threads s)" "cached s = encode48 c"
    "outbox (threads s ! k) = map (\<lambda>m. JString (encode48 m)) ms"
    "0 \<le> c" "sorted (c # ms)" "\<forall>m \<in> set (c # ms). m < 2 ^ 48"
    "\<forall>t \<in> set (clock es). (\<forall>m \<in> set (c # ms). m \<le> t) \<and> t < 2 ^ 48"
    "sorted (clock es)" "list_all (worker_only k) es"
  shows "sorted (cache_history es s) \<and> (\<forall>x \<in> set (cache_history es s). encode48 c \<le> x) \<and>
         sorted (promoted_gets es s) \<and> (\<forall>x \<in> set (promoted_gets es s). encode48 c \<le> x)"
  using assms
proof (induction es arbitrary: s c ms)
  case Nil
  then show ?case by simp
next
  case (Cons e es)
  have wo: "worker_only k e" and wos: "list_all (worker_only k) es"
    using Cons.prems(10) by simp_all
  have cl: "clock (e # es) = event_ms e @ clock es"
    by (simp add: clock_def)
  have ev: "\<forall>t \<in> set (event_ms e). \<forall>m \<in> set (c # ms). m \<le> t"
    using Cons.prems(8) by (simp add: cl)
  obtain c' ms' where s': "workerRunning (step e s)" "k < length (threads (step e s))"
    "cached (step e s) = encode48 c'"
    "outbox (threads (step e s) ! k) = map (\<lambda>m. JString (encode48 m)) ms'"
    and sub: "(\<forall>x \<in> set (c' # ms'). x \<in> set (c # ms) \<or> x \<in> set (event_ms e))"
    and srt: "sorted (c' # ms')" and cc': "c \<le> c'"
    using worker_only_step [OF Cons.prems(1-4) Cons.prems(6) wo ev] by blast
  have small: "\<forall>m \<in> set (c' # ms'). m < 2 ^ 48"
  proof
    fix m assume "m \<in> set (c' # ms')"
    with sub have "m \<in> set (c # ms) \<or> m \<in> set (event_ms e)" by blast
    then show "m < 2 ^ 48"
    proof
      assume "m \<in> set (c # ms)"
      then show ?thesis using Cons.prems(7) by blast
    next
      assume "m \<in> set (event_ms e)"
      then show ?thesis using Cons.prems(8) by (simp add: cl)
    qed
  qed
  have c'0: "0 \<le> c'"
    using Cons.prems(5) cc' by simp
  have fut: "\<forall>t \<in> set (clock es). (\<forall>m \<in> set (c' # ms'). m \<le> t) \<and> t < 2 ^ 48"
  proof
    fix t assume t: "t \<in> set (clock es)"
    have "\<forall>m \<in> set (c' # ms'). m \<le> t"
    proof
      fix m assume "m \<in> set (c' # ms')"
      with sub have "m \<in> set (c # ms) \<or> m \<in> set (event_ms e)" by blast
      then show "m \<le> t"
      proof
        assume "m \<in> set (c # ms)"
        then show ?thesis using Cons.prems(8) t by (auto simp: cl)
      next
        assume "m \<in> set (event_ms e)"
        then show ?thesis using Cons.prems(9) t by (simp add: cl sorted_append)
      qed
    qed
    then show "(\<forall>m \<in> set (c' # ms'). m \<le> t) \<and> t < 2 ^ 48"
      using Cons.prems(8) t by (simp add: cl)
  qed
  have scl: "sorted (clock es)"
    using Cons.prems(9) by (simp add: cl sorted_append)
  note IH = Cons.IH [OF s' c'0 srt small fut scl wos]
  have "c' < 2 ^ 48"
    using small by simp
  then have le: "encode48 c \<le> encode48 c'"
    using Cons.prems(5) cc' by (intro encode48_mono)
  have hist: "\<forall>x \<in> set (cache_history es (step e s)). encode48 c \<le> x"
    using IH le by (meson order_trans)
  have gets: "\<forall>x \<in> set (promoted_gets es (step e s)). encode48 c \<le> x"
    using IH le by (meson order_trans)
  have "sorted (cache_history (e # es) s)"
    using IH hist by (simp add: Cons.prems(3))
  moreover have "\<forall>x \<in> set (cache_history (e # es) s). encode48 c \<le> x"
    using hist by (simp add: Cons.prems(3))
  moreover have "sorted (promoted_gets (e # es) s)"
    using IH gets by (intro promoted_gets_Cons_sorted) (simp_all add: Cons.prems(3))
  moreover have "\<forall>x \<in> set (promoted_gets (e # es) s). encode48 c \<le> x"
    using gets by (rule promoted_gets_Cons_bound) (simp add: Cons.prems(3))
  ultimately show ?case by blast
qed

lemma resumeLoop_same_ms:
  "k < length (loops s) \<Longrightarrow> loops s ! k = nowMs \<Longrightarrow> cached (resumeLoop k nowMs s) = cached s"
  by (simp add: resumeLoop_def Let_def internalLoop_closed idleCheck_def split: option.splits)

lemma worker_step_same_ms: "w_lastMs th = Some nowMs \<Longrightarrow> worker_step nowMs th = th"
  by (simp add: worker_step_closed)

text \<open>
  C7, as the code has it. Let the clock be non-decreasing, within 48 bits and never
  below the millisecond held in the cache. If the cache has a single writer, the
  history of the cache and the values returned by \<open>get()\<close> on the cached path are
  non-decreasing in the lexicographic order. A single writer means: either no worker
  message is delivered during the execution (only internal loops write), or one
  worker is flagged running and the execution consists of calls of \<open>get()\<close>, steps of
  that worker and deliveries of its messages (its undelivered messages being ordered
  timestamps between the cached one and the clock). Both refreshers write only on a
  change of millisecond: a loop resumed in the millisecond it last saw leaves the cache
  alone, and a worker step in the millisecond it last saw posts nothing.
\<close>

theorem single_writer_nondecreasing:
  "(cached s = encode48 c \<and> sorted (c # clock es) \<and>
    (\<forall>t \<in> set (c # clock es). 0 \<le> t \<and> t < 2 ^ 48) \<and> list_all no_delivery es \<longrightarrow>
      sorted (cache_history es s) \<and> sorted (promoted_gets es s)) \<and>
   (cached s = encode48 c \<and> workerRunning s \<and> k < length (threads s) \<and>
    outbox (threads s ! k) = map (\<lambda>m. JString (encode48 m)) ms \<and>
    sorted (c # ms @ clock es) \<and> (\<forall>t \<in> set (c # ms @ clock es). 0 \<le> t \<and> t < 2 ^ 48) \<and>
    list_all (worker_only k) es \<longrightarrow>
      sorted (cache_history es s) \<and> sorted (promoted_gets es s)) \<and>
   (j < length (loops s) \<and> loops s ! j = nowMs \<longrightarrow> cached (resumeLoop j nowMs s) = cached s) \<and>
   (w_lastMs th = Some nowMs \<longrightarrow> worker_step nowMs th = th)"
proof (intro conjI impI)
  assume a: "cached s = encode48 c \<and> sorted (c # clock es) \<and>
    (\<forall>t \<in> set (c # clock es). 0 \<le> t \<and> t < 2 ^ 48) \<and> list_all no_delivery es"
  then have "sorted (cache_history es s) \<and> (\<forall>x \<in> set (cache_history es s). encode48 c \<le> x) \<and>
         sorted (promoted_gets es s) \<and> (\<forall>x \<in> set (promoted_gets es s). encode48 c \<le> x)"
    by (intro loops_only_nondecreasing) simp_all
  then show "sorted (cache_history es s)" and "sorted (promoted_gets es s)"
    by simp_all
next
  assume a: "cached s = encode48 c \<and> workerRunning s \<and> k < length (threads s) \<and>
    outbox (threads s ! k) = map (\<lambda>m. JString (encode48 m)) ms \<and>
    sorted (c # ms @ clock es) \<and> (\<forall>t \<in> set (c # ms @ clock es). 0 \<le> t \<and> t < 2 ^ 48) \<and>
    list_all (worker_only k) es"
  then have srt: "sorted ((c # ms) @ clock es)"
    by simp
  have "sorted (cache_history es s) \<and> (\<forall>x \<in> set (cache_history es s). encode48 c \<le> x) \<and>
         sorted (promoted_gets es s) \<and> (\<forall>x \<in> set (promoted_gets es s). encode48 c \<le> x)"
  proof (rule worker_only_nondecreasing [where k = k and ms = ms])
    show "sorted (c # ms)" "sorted (clock es)"
      using srt unfolding sorted_append by blast+
    show "\<forall>t \<in> set (clock es). (\<forall>m \<in> set (c # ms). m \<le> t) \<and> t < 2 ^ 48"
      using srt a unfolding sorted_append by auto
  qed (use a in simp_all)
  then show "sorted (cache_history es s)" and "sorted (promoted_gets es s)"
    by simp_all
qed (simp_all add: resumeLoop_same_ms worker_step_same_ms)

text \<open>
  C7 as stated fails when both refreshers are active. After \<open>start('internal')\<close> and
  \<open>start('worker')\<close> the worker posts the encoding of millisecond 11; before that message
  is delivered the loop writes millisecond 12 and \<open>get()\<close> returns it; then the message
  arrives, the cache is overwritten with millisecond 11, and the next \<open>get()\<close> returns
  the smaller value, although the clock never went back.
\<close>

theorem both_refreshers_counterexample:
  "sorted (clock [Start (Some ''internal'') True 10, Start (Some ''worker'') True 10,
       WorkerStep 0 11, LoopResume 0 12, Get True 12 5000, WorkerMessage 0 12, Get True 12 6000]) \<and>
   promoted_gets [Start (Some ''internal'') True 10, Start (Some ''worker'') True 10,
       WorkerStep 0 11, LoopResume 0 12, Get True 12 5000, WorkerMessage 0 12, Get True 12 6000]
     (init_state True defaultOptions (encode48 10) 10 0) = [encode48 12, encode48 11] \<and>
   \<not> sorted (promoted_gets [Start (Some ''internal'') True 10, Start (Some ''worker'') True 10,
       WorkerStep 0 11, LoopResume 0 12, Get True 12 5000, WorkerMessage 0 12, Get True 12 6000]
     (init_state True defaultOptions (encode48 10) 10 0))"
  by code_simp

theorem single_writer_nondecreasing_witness:
  "(cached (run [Start (Some ''internal'') True 10] (init_state True defaultOptions (encode48 10) 10 0))
      = encode48 10 \<and>
    sorted (10 # clock [Get True 11 1000, LoopResume 0 12, Get True 12 2000, LoopResume 0 12,
      LoopResume 0 14, Get True 14 3000]) \<and>
    list_all (\<lambda>t. 0 \<le> t \<and> t < 2 ^ 48)
      (10 # clock [Get True 11 1000, LoopResume 0 12, Get True 12 2000, LoopResume 0 12,
         LoopResume 0 14, Get True 14 3000]) \<and>
    list_all no_delivery [Get True 11 1000, LoopResume 0 12, Get True 12 2000, LoopResume 0 12,
      LoopResume 0 14, Get True 14 3000] \<and>
    sorted (promoted_gets [Get True 11 1000, LoopResume 0 12, Get True 12 2000, LoopResume 0 12,
      LoopResume 0 14, Get True 14 3000]
      (run [Start (Some ''internal'') True 10] (init_state True defaultOptions (encode48 10) 10 0))) \<and>
    0 < length (loops (run [Start (Some ''internal'') True 10]
      (init_state True defaultOptions (encode48 10) 10 0))) \<and>
    loops (run [Start (Some ''internal'') True 10]
      (init_state True defaultOptions (encode48 10) 10 0)) ! 0 = 10 \<and>
    cached (resumeLoop 0 10 (run [Start (Some ''internal'') True 10]
      (init_state True defaultOptions (encode48 10) 10 0))) =
    cached (run [Start (Some ''internal'') True 10]
      (init_state True defaultOptions (encode48 10) 10 0))) \<and>
   (cached (run [Start (Some ''worker'') True 10] (init_state True defaultOptions (encode48 10) 10 0))
      = encode48 10 \<and>
    workerRunning (run [Start (Some ''worker'') True 10]
      (init_state True defaultOptions (encode48 10) 10 0)) \<and>
    0 < length (threads (run [Start (Some ''worker'') True 10]
      (init_state True defaultOptions (encode48 10) 10 0))) \<and>
    outbox (threads (run [Start (Some ''worker'') True 10]
      (init_state True defaultOptions (encode48 10) 10 0)) ! 0) =
      map (\<lambda>m. JString (encode48 m)) [] \<and>
    sorted (10 # [] @ clock [WorkerStep 0 11, Get True 11 1000, WorkerMessage 0 11, Get True 11 2000,
      WorkerStep 0 12, WorkerStep 0 13, WorkerMessage 0 13, Get True 13 3000]) \<and>
    list_all (\<lambda>t. 0 \<le> t \<and> t < 2 ^ 48)
      (10 # [] @ clock [WorkerStep 0 11, Get True 11 1000, WorkerMessage 0 11,
         Get True 11 2000, WorkerStep 0 12, WorkerStep 0 13, WorkerMessage 0 13,
         Get True 13 3000]) \<and>
    list_all (worker_only 0) [WorkerStep 0 11, Get True 11 1000, WorkerMessage 0 11, Get True 11 2000,
      WorkerStep 0 12, WorkerStep 0 13, WorkerMessage 0 13, Get True 13 3000] \<and>
    sorted (promoted_gets [WorkerStep 0 11, Get True 11 1000, WorkerMessage 0 11, Get True 11 2000,
      WorkerStep 0 12, WorkerStep 0 13, WorkerMessage 0 13, Get True 13 3000]
      (run [Start (Some ''worker'') True 10] (init_state True defaultOptions (encode48 10) 10 0))) \<and>
    w_lastMs \<lparr>w_lastMs = Some 10, outbox = [], stopped = False\<rparr> = Some 10 \<and>
    worker_step 10 \<lparr>w_lastMs = Some 10, outbox = [], stopped = False\<rparr> =
      \<lparr>w_lastMs = Some 10, outbox = [], stopped = False\<rparr>)"
proof -
  let ?s0 = "init_state True defaultOptions (encode48 10) 10 0"
  let ?s1 = "run [Start (Some ''internal'') True 10] ?s0"
  let ?es1 = "[Get True 11 1000, LoopResume 0 12, Get True 12 2000, LoopResume 0 12,
      LoopResume 0 14, Get True 14 3000]"
  let ?s2 = "run [Start (Some ''worker'') True 10] ?s0"
  let ?es2 = "[WorkerStep 0 11, Get True 11 1000, WorkerMessage 0 11, Get True 11 2000,
      WorkerStep 0 12, WorkerStep 0 13, WorkerMessage 0 13, Get True 13 3000]"
  let ?th = "\<lparr>w_lastMs = Some 10, outbox = [], stopped = False\<rparr>"
  have h1: "cached ?s1 = encode48 10 \<and> sorted (10 # clock ?es1) \<and>
      (\<forall>t \<in> set (10 # clock ?es1). 0 \<le> t \<and> t < 2 ^ 48) \<and> list_all no_delivery ?es1"
    by code_simp
  have h1': "0 < length (loops ?s1) \<and> loops ?s1 ! 0 = 10"
    by code_simp
  have h2: "cached ?s2 = encode48 10 \<and> workerRunning ?s2 \<and> 0 < length (threads ?s2) \<and>
      outbox (threads ?s2 ! 0) = map (\<lambda>m. JString (encode48 m)) [] \<and>
      sorted (10 # [] @ clock ?es2) \<and>
      (\<forall>t \<in> set (10 # [] @ clock ?es2). 0 \<le> t \<and> t < 2 ^ 48) \<and>
      list_all (worker_only 0) ?es2"
    by code_simp
  have h3: "w_lastMs ?th = Some 10"
    by simp
  have l1: "list_all (\<lambda>t. 0 \<le> t \<and> t < 2 ^ 48) (10 # clock ?es1)"
    using h1 unfolding list_all_iff by blast
  have l2: "list_all (\<lambda>t. 0 \<le> t \<and> t < 2 ^ 48) (10 # [] @ clock ?es2)"
    using h2 unfolding list_all_iff by blast
  note t1 = single_writer_nondecreasing [of ?s1 10 ?es1 0 "[]" 0 10 ?th]
  note t2 = single_writer_nondecreasing [of ?s2 10 ?es2 0 "[]" 0 10 ?th]
  have c1: "sorted (promoted_gets ?es1 ?s1)"
    using t1 h1 by blast
  have c1': "cached (resumeLoop 0 10 ?s1) = cached ?s1"
    using t1 h1' by blast
  have c2: "sorted (promoted_gets ?es2 ?s2)"
    using t2 h2 by blast
  have c3: "worker_step 10 ?th = ?th"
    using t2 h3 by blast
  show ?thesis
    using h1 h1' h2 h3 l1 l2 c1 c1' c2 c3 by blast
qed

end
